theory Spec2Isabelle
  imports Complex_Main "HOL-Library.Word" "HOL-Library.Multiset"
begin

unbundle bit_operations_syntax

section \<open>Common helpers (dealers/common.py)\<close>

text \<open>
  Python exceptions are values. \<open>Exhausted\<close> is the \<open>RuntimeError\<close> of
  \<open>_check_exhausted\<close>, \<open>Inconsistent\<close> the one of \<open>PerfectDealer.draw\<close>
  ("No drawable cells"), \<open>FinalExhausted\<close> the one of \<open>_draw_final\<close>,
  \<open>EpisodeOver\<close> the one of \<open>ShuffleGuessGame.step\<close>; \<open>BitSelectError\<close> is the
  \<open>ValueError\<close> of \<open>bit_select\<close>, \<open>RandintError\<close> the \<open>ValueError\<close> numpy raises for
  an empty range, \<open>ShiftError\<close> the \<open>ValueError\<close> of a negative shift count;
  \<open>IndexError\<close>, \<open>ZeroDivisionError\<close> are Python's own; \<open>UnknownDealer\<close> is the
  \<open>ValueError\<close> of \<open>get_dealer\<close>.
\<close>

datatype error =
    Exhausted | Inconsistent | FinalExhausted | EpisodeOver | BitSelectError
  | RandintError | ShiftError | IndexError | ZeroDivisionError | UnknownDealer

text \<open>
  The random source \<open>np_random\<close> is supplied by the caller (numpy is not part of the
  repository), so it is a parameter: a stream of raw naturals. \<open>uniform_int\<close> consumes
  the head of the stream and reduces it into \<open>[low_inclusive, high_inclusive]\<close>; every
  sequence of in-range results is produced by some stream. \<open>randint\<close> raises on an empty
  range.
\<close>

type_synonym rng = "nat \<Rightarrow> nat"

definition uniform_int :: "rng \<Rightarrow> int \<Rightarrow> int \<Rightarrow> error + (int \<times> rng)" where
  "uniform_int g low_inclusive high_inclusive =
     (if high_inclusive < low_inclusive then Inl RandintError
      else Inr (low_inclusive + int (g 0) mod (high_inclusive - low_inclusive + 1),
                \<lambda>i. g (Suc i)))"

text \<open>Python list indexing: a negative index counts from the end, out of range raises.\<close>

definition py_index :: "'a list \<Rightarrow> int \<Rightarrow> error + nat" where
  "py_index xs i =
     (let len = int (length xs); j = (if i < 0 then len + i else i)
      in if 0 \<le> j \<and> j < len then Inr (nat j) else Inl IndexError)"

definition py_get :: "'a list \<Rightarrow> int \<Rightarrow> error + 'a" where
  "py_get xs i = (case py_index xs i of Inl e \<Rightarrow> Inl e | Inr j \<Rightarrow> Inr (xs ! j))"

definition py_set :: "'a list \<Rightarrow> int \<Rightarrow> 'a \<Rightarrow> error + 'a list" where
  "py_set xs i v = (case py_index xs i of Inl e \<Rightarrow> Inl e | Inr j \<Rightarrow> Inr (xs[j := v]))"

text \<open>\<open>int.bit_count()\<close> on a non-negative integer: the number of one bits.\<close>

fun popcount :: "nat \<Rightarrow> int" where
  "popcount x = (if x = 0 then 0 else int (x mod 2) + popcount (x div 2))"

declare popcount.simps [simp del]

text \<open>
  \<open>bit_select\<close>: the loop over the bits of the mask, with its counters \<open>count\<close> (here \<open>cnt\<close>) and
  \<open>pos\<close>. Cell masks are built as \<open>(1 << valid) - 1\<close> and only ever lose bits, so they
  are typed \<open>nat\<close>.
\<close>

function bit_select_loop :: "nat \<Rightarrow> int \<Rightarrow> int \<Rightarrow> int \<Rightarrow> error + int" where
  "bit_select_loop m r cnt pos =
     (if m = 0 then Inl BitSelectError
      else if m AND 1 \<noteq> 0
           then (if cnt = r then Inr pos
                 else bit_select_loop (drop_bit 1 m) r (cnt + 1) (pos + 1))
           else bit_select_loop (drop_bit 1 m) r cnt (pos + 1))"
  by pat_completeness auto
termination
  by (relation "measure (\<lambda>(m, r, cnt, pos). m)") (auto simp: drop_bit_eq_div)

declare bit_select_loop.simps [simp del]

definition bit_select :: "nat \<Rightarrow> int \<Rightarrow> error + int" where
  "bit_select m r = bit_select_loop m r 0 0"

text \<open>The fields \<open>_n\<close>, \<open>_np_random\<close>, \<open>_num_drawn\<close> of \<open>BaseDealer\<close>.\<close>

record base_dealer =
  dealer_n :: int
  np_random :: rng
  num_drawn :: int

text \<open>\<open>_check_exhausted\<close>: true when it raises.\<close>

definition check_exhausted :: "'a base_dealer_scheme \<Rightarrow> bool" where
  "check_exhausted s \<longleftrightarrow> num_drawn s \<ge> dealer_n s"

text \<open>
  A Python dict built by successive insertion. Probabilities are Python floats in the
  source; they are exact reals here, so rounding is outside the model.
\<close>

definition dict_of :: "('k \<times> 'v) list \<Rightarrow> ('k \<rightharpoonup> 'v)" where
  "dict_of kvs = foldl (\<lambda>m kv. m(fst kv \<mapsto> snd kv)) Map.empty kvs"

definition dict_sum :: "(int \<rightharpoonup> real) \<Rightarrow> real" where
  "dict_sum m = (\<Sum>k\<in>dom m. the (m k))"

text \<open>
  List comprehensions whose element expression or condition may raise:
  \<open>[f(x) for x in xs]\<close> and \<open>[x for x in xs if c(x)]\<close>.
\<close>

fun mapE :: "('a \<Rightarrow> error + 'b) \<Rightarrow> 'a list \<Rightarrow> error + 'b list" where
  "mapE f [] = Inr []"
| "mapE f (x # xs) =
     (case f x of
        Inl e \<Rightarrow> Inl e
      | Inr y \<Rightarrow> (case mapE f xs of Inl e \<Rightarrow> Inl e | Inr ys \<Rightarrow> Inr (y # ys)))"

fun filterE :: "('a \<Rightarrow> error + bool) \<Rightarrow> 'a list \<Rightarrow> error + 'a list" where
  "filterE c [] = Inr []"
| "filterE c (x # xs) =
     (case c x of
        Inl e \<Rightarrow> Inl e
      | Inr b \<Rightarrow>
          (case filterE c xs of Inl e \<Rightarrow> Inl e | Inr ys \<Rightarrow> Inr (if b then x # ys else ys)))"

text \<open>\<open>range(k)\<close> and \<open>range(a, b)\<close> as lists of Python integers.\<close>

definition py_range :: "int \<Rightarrow> int list" where
  "py_range k = map int [0..<nat k]"

definition py_range2 :: "int \<Rightarrow> int \<Rightarrow> int list" where
  "py_range2 a b = map (\<lambda>j. a + int j) [0..<nat (b - a)]"

section \<open>BitmapDealer (dealers/bitmap.py)\<close>

record bitmap = base_dealer +
  available :: "nat list"

definition bitmap_reset :: "int \<Rightarrow> rng \<Rightarrow> bitmap" where
  "bitmap_reset k g =
     \<lparr>dealer_n = k, np_random = g, num_drawn = 0, available = replicate (nat k) 1\<rparr>"

text \<open>The rejection loop \<open>while True\<close>: \<open>None\<close> is the loop that never returns.\<close>

partial_function (option) bitmap_loop :: "bitmap \<Rightarrow> (error + (int \<times> bitmap)) option" where
  "bitmap_loop s =
     (case uniform_int (np_random s) 0 (dealer_n s - 1) of
        Inl e \<Rightarrow> Some (Inl e)
      | Inr (c, g) \<Rightarrow>
          (case py_get (available s) c of
             Inl e \<Rightarrow> Some (Inl e)
           | Inr a \<Rightarrow>
               if a \<noteq> 0
               then (case py_set (available s) c 0 of
                       Inl e \<Rightarrow> Some (Inl e)
                     | Inr av \<Rightarrow>
                         Some (Inr (c, s\<lparr>np_random := g, num_drawn := num_drawn s + 1,
                                         available := av\<rparr>)))
               else bitmap_loop (s\<lparr>np_random := g\<rparr>)))"

declare bitmap_loop.simps [code]

definition bitmap_draw :: "bitmap \<Rightarrow> (error + (int \<times> bitmap)) option" where
  "bitmap_draw s = (if check_exhausted s then Some (Inl Exhausted) else bitmap_loop s)"

definition bitmap_remaining :: "bitmap \<Rightarrow> int" where
  "bitmap_remaining s = dealer_n s - num_drawn s"

definition is_available :: "nat list \<Rightarrow> int \<Rightarrow> error + bool" where
  "is_available av i = (case py_get av i of Inl e \<Rightarrow> Inl e | Inr a \<Rightarrow> Inr (a \<noteq> 0))"

definition bitmap_peek :: "bitmap \<Rightarrow> error + (int \<rightharpoonup> real) option" where
  "bitmap_peek s =
     (let rem = bitmap_remaining s in
      if rem = 0 then Inr None
      else (let prob = 1 / real_of_int rem in
            (case filterE (is_available (available s)) (py_range (dealer_n s)) of
               Inl e \<Rightarrow> Inl e
             | Inr ks \<Rightarrow> Inr (Some (dict_of (map (\<lambda>i. (i, prob)) ks))))))"

section \<open>FisherYatesDealer (dealers/fisher_yates.py)\<close>

record fisher_yates = base_dealer +
  fy_array :: "int list"
  fy_remaining :: int

definition fisher_yates_reset :: "int \<Rightarrow> rng \<Rightarrow> fisher_yates" where
  "fisher_yates_reset k g =
     \<lparr>dealer_n = k, np_random = g, num_drawn = 0,
      fy_array = py_range k, fy_remaining = k\<rparr>"

definition fisher_yates_draw :: "fisher_yates \<Rightarrow> error + (int \<times> fisher_yates)" where
  "fisher_yates_draw s =
     (if check_exhausted s then Inl Exhausted
      else case uniform_int (np_random s) 0 (fy_remaining s - 1) of
        Inl e \<Rightarrow> Inl e
      | Inr (i, g) \<Rightarrow>
          (case py_get (fy_array s) i of
             Inl e \<Rightarrow> Inl e
           | Inr out \<Rightarrow>
               (case py_get (fy_array s) (fy_remaining s - 1) of
                  Inl e \<Rightarrow> Inl e
                | Inr v \<Rightarrow>
                    (case py_set (fy_array s) i v of
                       Inl e \<Rightarrow> Inl e
                     | Inr arr \<Rightarrow>
                         Inr (out, s\<lparr>np_random := g, num_drawn := num_drawn s + 1,
                                     fy_array := arr,
                                     fy_remaining := fy_remaining s - 1\<rparr>)))))"

definition fisher_yates_peek :: "fisher_yates \<Rightarrow> error + (int \<rightharpoonup> real) option" where
  "fisher_yates_peek s =
     (let rem = fy_remaining s in
      if rem = 0 then Inr None
      else (let prob = 1 / real_of_int rem in
            (case mapE (py_get (fy_array s)) (py_range rem) of
               Inl e \<Rightarrow> Inl e
             | Inr ks \<Rightarrow> Inr (Some (dict_of (map (\<lambda>i. (i, prob)) ks))))))"

section \<open>AdaptiveThresholdDealer (dealers/adaptive\_threshold.py)\<close>

datatype phase = AdaptivePhase | FinalPhase

record adaptive = base_dealer +
  ad_d :: int
  sizes :: "int list"
  starts :: "int list"
  ell :: "int list"
  ad_t :: int
  phase :: phase
  final_cards :: "int list"
  final_remaining :: int
  m_bits :: int

text \<open>
  \<open>reset\<close>. The option \<open>m_bits\<close> of \<open>params\<close> is an optional argument (default 64);
  \<open>encoding\<close> only changes \<open>state_summary\<close> and is left out.
\<close>

definition adaptive_d :: "int \<Rightarrow> int \<Rightarrow> int" where
  "adaptive_d k mb =
     (let d = max 1 (mb div 8) in if d > k div 2 then max 1 (k div 2) else d)"

definition partition_step ::
  "int \<Rightarrow> int \<Rightarrow> int list \<times> int list \<times> int \<Rightarrow> int \<Rightarrow> int list \<times> int list \<times> int" where
  "partition_step base_size extra acc i =
     (case acc of (szs, sts, offset) \<Rightarrow>
        let sz = base_size + (if i < extra then 1 else 0)
        in (szs @ [sz], sts @ [offset], offset + sz))"

definition adaptive_reset :: "int \<Rightarrow> rng \<Rightarrow> int option \<Rightarrow> adaptive" where
  "adaptive_reset k g params =
     (let mb = (case params of None \<Rightarrow> 64 | Some m \<Rightarrow> m);
          d = adaptive_d k mb;
          base_size = k div d;
          extra = k mod d;
          parts = foldl (partition_step base_size extra) ([], [], 0) (py_range d)
      in \<lparr>dealer_n = k, np_random = g, num_drawn = 0,
          ad_d = d, sizes = fst parts, starts = fst (snd parts),
          ell = replicate (nat d) 0, ad_t = 0, phase = AdaptivePhase,
          final_cards = [], final_remaining = 0, m_bits = mb\<rparr>)"

definition adaptive_remaining :: "adaptive \<Rightarrow> int" where
  "adaptive_remaining s = dealer_n s - num_drawn s"

text \<open>\<open>math.ceil(self._t / self._d)\<close> is taken over the reals.\<close>

definition current_threshold :: "adaptive \<Rightarrow> error + int" where
  "current_threshold s =
     (if ad_t s = 0 then Inr 1
      else if ad_d s = 0 then Inl ZeroDivisionError
      else Inr (\<lceil>real_of_int (ad_t s) / real_of_int (ad_d s)\<rceil> + 1))"

definition top_card :: "adaptive \<Rightarrow> int \<Rightarrow> error + int" where
  "top_card s i =
     (case py_get (starts s) i of
        Inl e \<Rightarrow> Inl e
      | Inr st \<Rightarrow> (case py_get (ell s) i of Inl e \<Rightarrow> Inl e | Inr l \<Rightarrow> Inr (st + l)))"

text \<open>The test \<open>self._ell[i] < threshold and self._ell[i] < self._sizes[i]\<close>.\<close>

definition is_drawable :: "adaptive \<Rightarrow> int \<Rightarrow> int \<Rightarrow> error + bool" where
  "is_drawable s threshold i =
     (case py_get (ell s) i of
        Inl e \<Rightarrow> Inl e
      | Inr l \<Rightarrow>
          if l < threshold
          then (case py_get (sizes s) i of Inl e \<Rightarrow> Inl e | Inr sz \<Rightarrow> Inr (l < sz))
          else Inr False)"

definition get_drawable_indices :: "adaptive \<Rightarrow> error + int list" where
  "get_drawable_indices s =
     (case current_threshold s of
        Inl e \<Rightarrow> Inl e
      | Inr threshold \<Rightarrow> filterE (is_drawable s threshold) (py_range (ad_d s)))"

text \<open>The body of the accepting branch of the rejection loop.\<close>

definition adaptive_accept :: "adaptive \<Rightarrow> int \<Rightarrow> error + (int \<times> adaptive)" where
  "adaptive_accept s i =
     (case top_card s i of
        Inl e \<Rightarrow> Inl e
      | Inr cid \<Rightarrow>
          (case py_get (ell s) i of
             Inl e \<Rightarrow> Inl e
           | Inr l \<Rightarrow>
               (case py_set (ell s) i (l + 1) of
                  Inl e \<Rightarrow> Inl e
                | Inr ell' \<Rightarrow>
                    Inr (cid, s\<lparr>num_drawn := num_drawn s + 1, ell := ell'\<rparr>))))"

partial_function (option) adaptive_loop ::
  "int \<Rightarrow> adaptive \<Rightarrow> (error + (int \<times> adaptive)) option" where
  "adaptive_loop threshold s =
     (case uniform_int (np_random s) 0 (ad_d s - 1) of
        Inl e \<Rightarrow> Some (Inl e)
      | Inr (i, g) \<Rightarrow>
          (case is_drawable s threshold i of
             Inl e \<Rightarrow> Some (Inl e)
           | Inr b \<Rightarrow>
               if b then Some (adaptive_accept (s\<lparr>np_random := g\<rparr>) i)
               else adaptive_loop threshold (s\<lparr>np_random := g\<rparr>)))"

declare adaptive_loop.simps [code]

definition transition_to_final :: "adaptive \<Rightarrow> error + adaptive" where
  "transition_to_final s =
     (case mapE (\<lambda>i. case py_get (starts s) i of
                          Inl e \<Rightarrow> Inl e
                        | Inr st \<Rightarrow>
                            (case py_get (ell s) i of
                               Inl e \<Rightarrow> Inl e
                             | Inr l \<Rightarrow>
                                 (case py_get (sizes s) i of
                                    Inl e \<Rightarrow> Inl e
                                  | Inr sz \<Rightarrow> Inr (py_range2 (st + l) (st + sz)))))
                (py_range (ad_d s)) of
        Inl e \<Rightarrow> Inl e
      | Inr slices \<Rightarrow>
          Inr (s\<lparr>phase := FinalPhase, final_cards := concat slices,
                 final_remaining := int (length (concat slices))\<rparr>))"

definition draw_final :: "adaptive \<Rightarrow> error + (int \<times> adaptive)" where
  "draw_final s =
     (if final_remaining s = 0 then Inl FinalExhausted
      else case uniform_int (np_random s) 0 (final_remaining s - 1) of
        Inl e \<Rightarrow> Inl e
      | Inr (i, g) \<Rightarrow>
          (case py_get (final_cards s) i of
             Inl e \<Rightarrow> Inl e
           | Inr out \<Rightarrow>
               (case py_get (final_cards s) (final_remaining s - 1) of
                  Inl e \<Rightarrow> Inl e
                | Inr v \<Rightarrow>
                    (case py_set (final_cards s) i v of
                       Inl e \<Rightarrow> Inl e
                     | Inr fc \<Rightarrow>
                         Inr (out, s\<lparr>np_random := g, num_drawn := num_drawn s + 1,
                                     final_cards := fc,
                                     final_remaining := final_remaining s - 1\<rparr>)))))"

definition draw_adaptive :: "adaptive \<Rightarrow> (error + (int \<times> adaptive)) option" where
  "draw_adaptive s0 =
     (let s = s0\<lparr>ad_t := ad_t s0 + 1\<rparr>;
          n_adaptive = dealer_n s - 2 * ad_d s
      in if ad_t s > n_adaptive
         then (case transition_to_final s of
                 Inl e \<Rightarrow> Some (Inl e)
               | Inr s' \<Rightarrow> Some (draw_final s'))
         else (case current_threshold s of
                 Inl e \<Rightarrow> Some (Inl e)
               | Inr threshold \<Rightarrow> adaptive_loop threshold s))"

definition adaptive_draw :: "adaptive \<Rightarrow> (error + (int \<times> adaptive)) option" where
  "adaptive_draw s =
     (if check_exhausted s then Some (Inl Exhausted)
      else case phase s of
        AdaptivePhase \<Rightarrow> draw_adaptive s
      | FinalPhase \<Rightarrow> Some (draw_final s))"

definition adaptive_peek :: "adaptive \<Rightarrow> error + (int \<rightharpoonup> real) option" where
  "adaptive_peek s =
     (if adaptive_remaining s = 0 then Inr None
      else case phase s of
        FinalPhase \<Rightarrow>
          (let rem = final_remaining s in
           if rem = 0 then Inr None
           else (let prob = 1 / real_of_int rem in
                 (case mapE (py_get (final_cards s)) (py_range rem) of
                    Inl e \<Rightarrow> Inl e
                  | Inr ks \<Rightarrow> Inr (Some (dict_of (map (\<lambda>i. (i, prob)) ks))))))
      | AdaptivePhase \<Rightarrow>
          (case get_drawable_indices s of
             Inl e \<Rightarrow> Inl e
           | Inr drawable \<Rightarrow>
               if drawable = [] then Inr None
               else (let prob = 1 / real (length drawable) in
                     (case mapE (top_card s) drawable of
                        Inl e \<Rightarrow> Inl e
                      | Inr ks \<Rightarrow> Inr (Some (dict_of (map (\<lambda>i. (i, prob)) ks)))))))"

section \<open>PerfectDealer (dealers/perfect.py)\<close>

record cell =
  cell_index :: int
  cell_mask :: nat
  cell_base :: int

definition cell_pop :: "cell \<Rightarrow> int" where
  "cell_pop c = popcount (cell_mask c)"

record perfect = base_dealer +
  pf_w :: int
  num_cells :: int
  cells :: "cell list"
  interval_begin :: "int list"
  interval_size :: "int list"

text \<open>
  \<open>math.ceil(math.log2(m))\<close> for \<open>m \<ge> 1\<close>, computed exactly;
  \<open>math.ceil(n / w)\<close> is taken over the reals.
\<close>

fun ceil_log2 :: "nat \<Rightarrow> nat" where
  "ceil_log2 m = (if m \<le> 1 then 0 else Suc (ceil_log2 ((m + 1) div 2)))"

declare ceil_log2.simps [simp del]

definition cell_width :: "int \<Rightarrow> int" where
  "cell_width k = max 1 (int (ceil_log2 (nat (max k 2))))"

definition make_cell :: "int \<Rightarrow> int \<Rightarrow> int \<Rightarrow> error + cell" where
  "make_cell k w j =
     (let b = j * w;
          valid = min w (k - b)
      in if valid < 0 then Inl ShiftError
         else Inr \<lparr>cell_index = j, cell_mask = push_bit (nat valid) 1 - 1, cell_base = b\<rparr>)"

definition count_pops :: "cell list \<Rightarrow> (int \<rightharpoonup> int)" where
  "count_pops cs =
     foldl (\<lambda>m c. m(cell_pop c \<mapsto> (case m (cell_pop c) of None \<Rightarrow> 0 | Some v \<Rightarrow> v) + 1))
       Map.empty cs"

text \<open>
  The loop \<open>for p in range(w + 1)\<close> that fills both interval tables; \<open>p\<close> runs over
  the indices of the two freshly allocated lists of length \<open>w + 1\<close>.
\<close>

definition assign_step ::
  "(int \<rightharpoonup> int) \<Rightarrow> int list \<times> int list \<times> int \<Rightarrow> int \<Rightarrow> int list \<times> int list \<times> int" where
  "assign_step pop_counts acc p =
     (case acc of (begins, szs, offset) \<Rightarrow>
        let cnt = (case pop_counts p of None \<Rightarrow> 0 | Some v \<Rightarrow> v)
        in (begins[nat p := offset], szs[nat p := cnt], offset + cnt))"

definition perfect_reset :: "int \<Rightarrow> rng \<Rightarrow> error + perfect" where
  "perfect_reset k g =
     (let w = cell_width k;
          nc = \<lceil>real_of_int k / real_of_int w\<rceil>
      in case mapE (make_cell k w) (py_range nc) of
           Inl e \<Rightarrow> Inl e
         | Inr cs0 \<Rightarrow>
             (let cs = sort_key cell_pop cs0;
                  tabs = foldl (assign_step (count_pops cs))
                           (replicate (nat (w + 1)) 0, replicate (nat (w + 1)) 0, 0)
                           (py_range (w + 1))
              in Inr \<lparr>dealer_n = k, np_random = g, num_drawn = 0,
                      pf_w = w, num_cells = nc, cells = cs,
                      interval_begin = fst tabs, interval_size = fst (snd tabs)\<rparr>))"

definition perfect_remaining :: "perfect \<Rightarrow> int" where
  "perfect_remaining s = dealer_n s - num_drawn s"

text \<open>\<open>total\<close>: the first loop of \<open>draw\<close>.\<close>

definition population_total :: "perfect \<Rightarrow> error + int" where
  "population_total s =
     (case mapE (\<lambda>p. case py_get (interval_size s) p of
                          Inl e \<Rightarrow> Inl e
                        | Inr v \<Rightarrow> Inr (p * v))
                (py_range2 1 (pf_w s + 1)) of
        Inl e \<Rightarrow> Inl e
      | Inr xs \<Rightarrow> Inr (sum_list xs))"

text \<open>The prefix-sum scan with its \<open>break\<close>; \<open>chosen_pop\<close> stays 0 when it never breaks.\<close>

fun population_scan :: "int list \<Rightarrow> int \<Rightarrow> int \<Rightarrow> int list \<Rightarrow> error + int" where
  "population_scan isz r cumul [] = Inr 0"
| "population_scan isz r cumul (p # ps) =
     (case py_get isz p of
        Inl e \<Rightarrow> Inl e
      | Inr v \<Rightarrow>
          (let cumul' = cumul + p * v
           in if r < cumul' then Inr p else population_scan isz r cumul' ps))"

text \<open>\<open>xs[i] += v\<close> and the tuple swap \<open>xs[i], xs[j] = xs[j], xs[i]\<close>.\<close>

definition py_add :: "int list \<Rightarrow> int \<Rightarrow> int \<Rightarrow> error + int list" where
  "py_add xs i v = (case py_get xs i of Inl e \<Rightarrow> Inl e | Inr x \<Rightarrow> py_set xs i (x + v))"

definition py_swap :: "'a list \<Rightarrow> int \<Rightarrow> int \<Rightarrow> error + 'a list" where
  "py_swap xs i j =
     (case py_get xs j of
        Inl e \<Rightarrow> Inl e
      | Inr xj \<Rightarrow>
          (case py_get xs i of
             Inl e \<Rightarrow> Inl e
           | Inr xi \<Rightarrow>
               (case py_set xs i xj of Inl e \<Rightarrow> Inl e | Inr ys \<Rightarrow> py_set ys j xi)))"

definition decrement_cell_population :: "perfect \<Rightarrow> int \<Rightarrow> int \<Rightarrow> error + perfect" where
  "decrement_cell_population s cell_idx old_pop =
     (let new_pop = old_pop - 1 in
      case py_get (interval_begin s) old_pop of
        Inl e \<Rightarrow> Inl e
      | Inr first_in_interval \<Rightarrow>
          (case (if cell_idx \<noteq> first_in_interval
                 then py_swap (cells s) cell_idx first_in_interval
                 else Inr (cells s)) of
             Inl e \<Rightarrow> Inl e
           | Inr cs \<Rightarrow>
               (case py_add (interval_begin s) old_pop 1 of
                  Inl e \<Rightarrow> Inl e
                | Inr begins \<Rightarrow>
                    (case py_add (interval_size s) old_pop (- 1) of
                       Inl e \<Rightarrow> Inl e
                     | Inr szs \<Rightarrow>
                         (case py_add szs new_pop 1 of
                            Inl e \<Rightarrow> Inl e
                          | Inr szs' \<Rightarrow>
                              Inr (s\<lparr>cells := cs, interval_begin := begins,
                                     interval_size := szs'\<rparr>))))))"

text \<open>
  Steps 1 to 3 of \<open>draw\<close> up to the call of \<open>bit_select\<close>: the chosen population,
  the slot \<open>cell_idx\<close>, the cell found there, the sampled \<open>bit_r\<close> and the random source
  after the three samples.
\<close>

definition perfect_sample :: "perfect \<Rightarrow> error + (int \<times> int \<times> cell \<times> int \<times> rng)" where
  "perfect_sample s =
     (case population_total s of
        Inl e \<Rightarrow> Inl e
      | Inr tot \<Rightarrow>
          if tot = 0 then Inl Inconsistent
          else (case uniform_int (np_random s) 0 (tot - 1) of
             Inl e \<Rightarrow> Inl e
           | Inr (r, g1) \<Rightarrow>
               (case population_scan (interval_size s) r 0 (py_range2 1 (pf_w s + 1)) of
                  Inl e \<Rightarrow> Inl e
                | Inr chosen_pop \<Rightarrow>
                    (case py_get (interval_size s) chosen_pop of
                       Inl e \<Rightarrow> Inl e
                     | Inr isize \<Rightarrow>
                         (case uniform_int g1 0 (isize - 1) of
                            Inl e \<Rightarrow> Inl e
                          | Inr (loc, g2) \<Rightarrow>
                              (case py_get (interval_begin s) chosen_pop of
                                 Inl e \<Rightarrow> Inl e
                               | Inr b \<Rightarrow>
                                   (case py_get (cells s) (b + loc) of
                                      Inl e \<Rightarrow> Inl e
                                    | Inr c \<Rightarrow>
                                        (case uniform_int g2 0 (chosen_pop - 1) of
                                           Inl e \<Rightarrow> Inl e
                                         | Inr (bit_r, g3) \<Rightarrow>
                                             Inr (chosen_pop, b + loc, c, bit_r, g3)))))))))"

text \<open>\<open>cell.mask &= ~(1 << bit_pos)\<close>, computed on Python integers.\<close>

definition clear_bit :: "nat \<Rightarrow> int \<Rightarrow> error + nat" where
  "clear_bit m bit_pos =
     (if bit_pos < 0 then Inl ShiftError
      else Inr (nat (int m AND NOT (push_bit (nat bit_pos) 1))))"

definition perfect_draw :: "perfect \<Rightarrow> error + (int \<times> perfect)" where
  "perfect_draw s =
     (if check_exhausted s then Inl Exhausted
      else case perfect_sample s of
        Inl e \<Rightarrow> Inl e
      | Inr (chosen_pop, cell_idx, c, bit_r, g) \<Rightarrow>
          (case bit_select (cell_mask c) bit_r of
             Inl e \<Rightarrow> Inl e
           | Inr bit_pos \<Rightarrow>
               (let element_id = cell_base c + bit_pos in
                case clear_bit (cell_mask c) bit_pos of
                  Inl e \<Rightarrow> Inl e
                | Inr m \<Rightarrow>
                    (case py_set (cells s) cell_idx (c\<lparr>cell_mask := m\<rparr>) of
                       Inl e \<Rightarrow> Inl e
                     | Inr cs \<Rightarrow>
                         (case decrement_cell_population (s\<lparr>np_random := g, cells := cs\<rparr>)
                                 cell_idx chosen_pop of
                            Inl e \<Rightarrow> Inl e
                          | Inr s' \<Rightarrow>
                              Inr (element_id, s'\<lparr>num_drawn := num_drawn s' + 1\<rparr>))))))"

text \<open>The inner \<open>while mask\<close> loop of \<open>peek_next_distribution\<close>.\<close>

function mask_positions :: "nat \<Rightarrow> int \<Rightarrow> int list" where
  "mask_positions m pos =
     (if m = 0 then []
      else (if m AND 1 \<noteq> 0 then [pos] else []) @ mask_positions (drop_bit 1 m) (pos + 1))"
  by pat_completeness auto
termination
  by (relation "measure (\<lambda>(m, pos). m)") (auto simp: drop_bit_eq_div)

declare mask_positions.simps [simp del]

definition cell_ids :: "cell \<Rightarrow> int list" where
  "cell_ids c = map (\<lambda>pos. cell_base c + pos) (mask_positions (cell_mask c) 0)"

definition perfect_peek :: "perfect \<Rightarrow> error + (int \<rightharpoonup> real) option" where
  "perfect_peek s =
     (let rem = perfect_remaining s in
      if rem = 0 then Inr None
      else (let prob = 1 / real_of_int rem in
            Inr (Some (dict_of (map (\<lambda>i. (i, prob)) (concat (map cell_ids (cells s))))))))"

section \<open>The dealer contract and the registry (dealers/\_\_init\_\_.py)\<close>

datatype dealer_class = BitmapDealer | FisherYatesDealer | AdaptiveThresholdDealer | PerfectDealer

datatype dealer =
  Bitmap bitmap | FisherYates fisher_yates | Adaptive adaptive | Perfect perfect

definition DEALER_REGISTRY :: "(string \<times> dealer_class) list" where
  "DEALER_REGISTRY =
     [(''bitmap'', BitmapDealer), (''fisher_yates'', FisherYatesDealer),
      (''adaptive'', AdaptiveThresholdDealer), (''perfect'', PerfectDealer)]"

definition get_dealer :: "string \<Rightarrow> error + dealer_class" where
  "get_dealer name =
     (case map_of DEALER_REGISTRY name of None \<Rightarrow> Inl UnknownDealer | Some cls \<Rightarrow> Inr cls)"

text \<open>
  \<open>reset\<close> assigns every field of the instance, so the instance it is called on only
  contributes its class.
\<close>

fun reset :: "dealer_class \<Rightarrow> int \<Rightarrow> rng \<Rightarrow> int option \<Rightarrow> error + dealer" where
  "reset BitmapDealer k g params = Inr (Bitmap (bitmap_reset k g))"
| "reset FisherYatesDealer k g params = Inr (FisherYates (fisher_yates_reset k g))"
| "reset AdaptiveThresholdDealer k g params = Inr (Adaptive (adaptive_reset k g params))"
| "reset PerfectDealer k g params =
     (case perfect_reset k g of Inl e \<Rightarrow> Inl e | Inr s \<Rightarrow> Inr (Perfect s))"

fun lift_draw :: "('a \<Rightarrow> dealer) \<Rightarrow> (error + (int \<times> 'a)) option \<Rightarrow> (error + (int \<times> dealer)) option" where
  "lift_draw C None = None"
| "lift_draw C (Some (Inl e)) = Some (Inl e)"
| "lift_draw C (Some (Inr (x, s))) = Some (Inr (x, C s))"

fun draw :: "dealer \<Rightarrow> (error + (int \<times> dealer)) option" where
  "draw (Bitmap s) = lift_draw Bitmap (bitmap_draw s)"
| "draw (FisherYates s) = lift_draw FisherYates (Some (fisher_yates_draw s))"
| "draw (Adaptive s) = lift_draw Adaptive (adaptive_draw s)"
| "draw (Perfect s) = lift_draw Perfect (Some (perfect_draw s))"

fun remaining :: "dealer \<Rightarrow> int" where
  "remaining (Bitmap s) = bitmap_remaining s"
| "remaining (FisherYates s) = fy_remaining s"
| "remaining (Adaptive s) = adaptive_remaining s"
| "remaining (Perfect s) = perfect_remaining s"

fun peek_next_distribution :: "dealer \<Rightarrow> error + (int \<rightharpoonup> real) option" where
  "peek_next_distribution (Bitmap s) = bitmap_peek s"
| "peek_next_distribution (FisherYates s) = fisher_yates_peek s"
| "peek_next_distribution (Adaptive s) = adaptive_peek s"
| "peek_next_distribution (Perfect s) = perfect_peek s"

fun total_of :: "dealer \<Rightarrow> int" where
  "total_of (Bitmap s) = dealer_n s"
| "total_of (FisherYates s) = dealer_n s"
| "total_of (Adaptive s) = dealer_n s"
| "total_of (Perfect s) = dealer_n s"

fun drawn_of :: "dealer \<Rightarrow> int" where
  "drawn_of (Bitmap s) = num_drawn s"
| "drawn_of (FisherYates s) = num_drawn s"
| "drawn_of (Adaptive s) = num_drawn s"
| "drawn_of (Perfect s) = num_drawn s"

text \<open>\<open>[dealer.draw() for _ in range(k)]\<close>: the outputs in order and the final state.\<close>

fun draws :: "nat \<Rightarrow> dealer \<Rightarrow> (error + (int list \<times> dealer)) option" where
  "draws 0 s = Some (Inr ([], s))"
| "draws (Suc k) s =
     (case draw s of
        None \<Rightarrow> None
      | Some (Inl e) \<Rightarrow> Some (Inl e)
      | Some (Inr (x, s')) \<Rightarrow>
          (case draws k s' of
             None \<Rightarrow> None
           | Some (Inl e) \<Rightarrow> Some (Inl e)
           | Some (Inr (xs, s'')) \<Rightarrow> Some (Inr (x # xs, s''))))"

section \<open>ShuffleGuessGame (envs/shuffle\_guess/game.py)\<close>

definition NUM_TYPES :: int where
  "NUM_TYPES = 52"

record game =
  game_n :: int
  action_mode :: string
  game_dealer :: dealer
  game_t :: int
  counts :: "32 word list"
  score :: int
  drawn_ids :: "int list"
  last_drawn_id :: "int option"
  game_done :: bool

definition init_game :: "dealer_class \<Rightarrow> int \<Rightarrow> string \<Rightarrow> int \<Rightarrow> rng \<Rightarrow> error + game" where
  "init_game cls k mode mb g =
     (case reset cls k g (Some mb) of
        Inl e \<Rightarrow> Inl e
      | Inr dl \<Rightarrow>
          Inr \<lparr>game_n = k, action_mode = mode, game_dealer = dl, game_t = 0,
               counts = replicate (nat NUM_TYPES) 0, score = 0, drawn_ids = [],
               last_drawn_id = None, game_done = False\<rparr>)"

definition step :: "game \<Rightarrow> int \<Rightarrow> (error + game) option" where
  "step gm action =
     (if game_done gm then Some (Inl EpisodeOver)
      else case draw (game_dealer gm) of
        None \<Rightarrow> None
      | Some (Inl e) \<Rightarrow> Some (Inl e)
      | Some (Inr (drawn_id, dl)) \<Rightarrow>
          (let drawn_type = drawn_id mod NUM_TYPES;
               score' = (if action = drawn_type then score gm + 1 else score gm)
           in case py_get (counts gm) drawn_type of
                Inl e \<Rightarrow> Some (Inl e)
              | Inr c \<Rightarrow>
                  (case py_set (counts gm) drawn_type (c + 1) of
                     Inl e \<Rightarrow> Some (Inl e)
                   | Inr cs \<Rightarrow>
                       (let t' = game_t gm + 1
                        in Some (Inr (gm\<lparr>game_dealer := dl, game_t := t', counts := cs,
                                        score := score', drawn_ids := drawn_ids gm @ [drawn_id],
                                        last_drawn_id := Some drawn_id,
                                        game_done := (if t' \<ge> game_n gm then True
                                                      else game_done gm)\<rparr>))))))"

definition get_legal_actions :: "game \<Rightarrow> int list" where
  "get_legal_actions gm =
     (if action_mode gm = ''type'' then py_range NUM_TYPES else py_range (game_n gm))"

section \<open>Concrete random sources\<close>

definition const_rng :: "nat \<Rightarrow> rng" where
  "const_rng v = (\<lambda>i. v)"

definition linear_rng :: "nat \<Rightarrow> nat \<Rightarrow> rng" where
  "linear_rng a b = (\<lambda>i. a * i + b)"

definition fisher_yates_inv :: "int \<Rightarrow> int list \<Rightarrow> fisher_yates \<Rightarrow> bool" where
  "fisher_yates_inv k outs s \<longleftrightarrow>
     dealer_n s = k \<and> num_drawn s = int (length outs) \<and>
     fy_remaining s = k - num_drawn s \<and> 0 \<le> fy_remaining s \<and>
     nat (fy_remaining s) \<le> length (fy_array s) \<and>
     mset outs + mset (take (nat (fy_remaining s)) (fy_array s)) = mset (py_range k)"

definition bitmap_inv :: "int \<Rightarrow> int list \<Rightarrow> bitmap \<Rightarrow> bool" where
  "bitmap_inv k outs s \<longleftrightarrow>
     dealer_n s = k \<and> num_drawn s = int (length outs) \<and>
     length (available s) = nat k \<and> distinct outs \<and>
     set outs = {i. 0 \<le> i \<and> i < k \<and> available s ! nat i = 0}"

definition deck_slice :: "adaptive \<Rightarrow> nat \<Rightarrow> int list" where
  "deck_slice s i = py_range2 (starts s ! i + ell s ! i) (starts s ! i + sizes s ! i)"

definition adaptive_pool :: "adaptive \<Rightarrow> int multiset" where
  "adaptive_pool s = (\<Sum>i<nat (ad_d s). mset (deck_slice s i))"

definition partition_ok :: "int \<Rightarrow> adaptive \<Rightarrow> bool" where
  "partition_ok k s \<longleftrightarrow>
     1 \<le> ad_d s \<and> length (sizes s) = nat (ad_d s) \<and> length (starts s) = nat (ad_d s) \<and>
     length (ell s) = nat (ad_d s) \<and> sum_list (sizes s) = k \<and>
     (\<forall>i<nat (ad_d s). k div ad_d s \<le> sizes s ! i \<and> sizes s ! i \<le> k div ad_d s + 1)"

definition adaptive_inv :: "int \<Rightarrow> int list \<Rightarrow> adaptive \<Rightarrow> bool" where
  "adaptive_inv k outs s \<longleftrightarrow>
     dealer_n s = k \<and> num_drawn s = int (length outs) \<and> partition_ok k s \<and>
     (case phase s of
        AdaptivePhase \<Rightarrow>
          ad_t s = num_drawn s \<and> sum_list (ell s) = num_drawn s \<and>
          (\<forall>i<nat (ad_d s). 0 \<le> ell s ! i \<and> ell s ! i \<le> sizes s ! i) \<and>
          mset outs + adaptive_pool s = mset (py_range k)
      | FinalPhase \<Rightarrow>
          final_remaining s = k - num_drawn s \<and> 0 \<le> final_remaining s \<and>
          nat (final_remaining s) \<le> length (final_cards s) \<and>
          mset outs + mset (take (nat (final_remaining s)) (final_cards s)) = mset (py_range k))"

definition deck_size :: "int \<Rightarrow> int \<Rightarrow> nat \<Rightarrow> int" where
  "deck_size q r i = q + (if int i < r then 1 else 0)"

definition deck_start :: "int \<Rightarrow> int \<Rightarrow> nat \<Rightarrow> int" where
  "deck_start q r i = int i * q + min (int i) r"

definition adaptive_mid :: "int \<Rightarrow> int list \<Rightarrow> adaptive \<Rightarrow> bool" where
  "adaptive_mid k outs s \<longleftrightarrow>
     phase s = AdaptivePhase \<and> adaptive_inv k outs (s\<lparr>ad_t := ad_t s - 1\<rparr>)"

definition adaptive_post :: "int \<Rightarrow> int list \<Rightarrow> int \<Rightarrow> adaptive \<Rightarrow> error + (int \<times> adaptive) \<Rightarrow> bool" where
  "adaptive_post k outs thr s y \<longleftrightarrow>
     (\<exists>i s'. y = Inr (starts s ! nat i + ell s ! nat i, s') \<and> 0 \<le> i \<and> i < ad_d s \<and>
        ell s ! nat i < thr \<and> ell s ! nat i < sizes s ! nat i \<and>
        adaptive_inv k (outs @ [starts s ! nat i + ell s ! nat i]) s' \<and>
        phase s' = AdaptivePhase)"

text \<open>
  The adaptive-phase states of the dealer for \<open>n = 8\<close>, \<open>m_bits = 16\<close> fed by the constant
  source 0: \<open>t\<close> cards drawn, all from mini-deck 0.
\<close>

definition stuck_state :: "int \<Rightarrow> int list \<Rightarrow> adaptive" where
  "stuck_state t e =
     \<lparr>dealer_n = 8, np_random = const_rng 0, num_drawn = t, ad_d = 2, sizes = [4, 4],
      starts = [0, 4], ell = e, ad_t = t, phase = AdaptivePhase, final_cards = [],
      final_remaining = 0, m_bits = 16\<rparr>"

text \<open>Invariants of the PerfectDealer.\<close>

definition weighted_sum :: "int list \<Rightarrow> int" where
  "weighted_sum xs = (\<Sum>p\<leftarrow>[0..<length xs]. int p * xs ! p)"

definition perfect_pool :: "cell list \<Rightarrow> int multiset" where
  "perfect_pool cs = (\<Sum>c\<leftarrow>cs. mset (cell_ids c))"

definition layout_ok :: "perfect \<Rightarrow> bool" where
  "layout_ok s \<longleftrightarrow>
     1 \<le> pf_w s \<and> length (interval_begin s) = nat (pf_w s + 1) \<and>
     length (interval_size s) = nat (pf_w s + 1) \<and>
     (\<forall>p\<le>nat (pf_w s). 0 \<le> interval_begin s ! p \<and> 0 \<le> interval_size s ! p \<and>
          interval_begin s ! p + interval_size s ! p \<le> int (length (cells s))) \<and>
     (\<forall>p<nat (pf_w s). interval_begin s ! Suc p = interval_begin s ! p + interval_size s ! p) \<and>
     (\<forall>p\<le>nat (pf_w s). \<forall>i. interval_begin s ! p \<le> int i \<and>
          int i < interval_begin s ! p + interval_size s ! p \<longrightarrow>
          cell_pop (cells s ! i) = int p)"

definition perfect_inv :: "int \<Rightarrow> int list \<Rightarrow> perfect \<Rightarrow> bool" where
  "perfect_inv k outs s \<longleftrightarrow>
     dealer_n s = k \<and> num_drawn s = int (length outs) \<and> layout_ok s \<and>
     weighted_sum (interval_size s) = k - num_drawn s \<and>
     mset outs + perfect_pool (cells s) = mset (py_range k)"

text \<open>The cell that \<open>reset\<close> builds for index \<open>j\<close>.\<close>

definition init_cell :: "int \<Rightarrow> int \<Rightarrow> nat \<Rightarrow> cell" where
  "init_cell k w j =
     \<lparr>cell_index = int j, cell_mask = push_bit (nat (min w (k - int j * w))) 1 - 1,
      cell_base = int j * w\<rparr>"

text \<open>The number of cells of a given population, and of a smaller population.\<close>

definition count_eq :: "cell list \<Rightarrow> int \<Rightarrow> int" where
  "count_eq cs p = int (length (filter (\<lambda>c. cell_pop c = p) cs))"

definition count_lt :: "cell list \<Rightarrow> int \<Rightarrow> int" where
  "count_lt cs p = int (length (filter (\<lambda>c. cell_pop c < p) cs))"

text \<open>The invariant of each dealer, by class.\<close>

fun dealer_inv :: "int \<Rightarrow> int list \<Rightarrow> dealer \<Rightarrow> bool" where
  "dealer_inv k outs (Bitmap s) = bitmap_inv k outs s"
| "dealer_inv k outs (FisherYates s) = fisher_yates_inv k outs s"
| "dealer_inv k outs (Adaptive s) = adaptive_inv k outs s"
| "dealer_inv k outs (Perfect s) = perfect_inv k outs s"

text \<open>The dealers whose \<open>draw\<close> contains no rejection loop.\<close>

fun loop_free :: "dealer \<Rightarrow> bool" where
  "loop_free (Bitmap s) = False"
| "loop_free (FisherYates s) = True"
| "loop_free (Adaptive s) = False"
| "loop_free (Perfect s) = True"

text \<open>
  The PerfectDealer for \<open>n = 3\<close> (\<open>w = 2\<close>, two cells) fed by the constant source 0:
  the state after \<open>reset\<close> and the state after the first draw, which returns id 2.
\<close>

definition perfect3_start :: perfect where
  "perfect3_start =
     \<lparr>dealer_n = 3, np_random = const_rng 0, num_drawn = 0, pf_w = 2, num_cells = 2,
      cells = [\<lparr>cell_index = 1, cell_mask = 1, cell_base = 2\<rparr>,
               \<lparr>cell_index = 0, cell_mask = 3, cell_base = 0\<rparr>],
      interval_begin = [0, 0, 1], interval_size = [0, 1, 1]\<rparr>"

definition perfect3_next :: perfect where
  "perfect3_next =
     \<lparr>dealer_n = 3, np_random = const_rng 0, num_drawn = 1, pf_w = 2, num_cells = 2,
      cells = [\<lparr>cell_index = 1, cell_mask = 0, cell_base = 2\<rparr>,
               \<lparr>cell_index = 0, cell_mask = 3, cell_base = 0\<rparr>],
      interval_begin = [0, 1, 1], interval_size = [1, 0, 1]\<rparr>"

text \<open>
  A corrupt PerfectDealer state: \<open>perfect3_start\<close> with every interval size set to 0,
  although no card has been drawn.
\<close>

definition perfect3_corrupt :: perfect where
  "perfect3_corrupt = perfect3_start\<lparr>interval_size := [0, 0, 0]\<rparr>"

text \<open>
  A random source is fair when, from every point of its stream on and for every modulus,
  every residue still occurs. Each rejection loop returns on a fair source.
\<close>

definition fair :: "rng \<Rightarrow> bool" where
  "fair g \<longleftrightarrow> (\<forall>md off tgt. tgt < md \<longrightarrow> (\<exists>m. g (off + m) mod md = tgt))"

fun rng_of :: "dealer \<Rightarrow> rng" where
  "rng_of (Bitmap s) = np_random s"
| "rng_of (FisherYates s) = np_random s"
| "rng_of (Adaptive s) = np_random s"
| "rng_of (Perfect s) = np_random s"

section \<open>Basic facts\<close>

lemma uniform_int_range: "uniform_int g lo hi = Inr (x, g') \<Longrightarrow> lo \<le> x \<and> x \<le> hi"
  by (auto simp: uniform_int_def split: if_splits intro: pos_mod_sign) (smt (verit) pos_mod_bound)

lemma uniform_int_ok: "lo \<le> hi \<Longrightarrow> \<exists>x g'. uniform_int g lo hi = Inr (x, g')"
  by (simp add: uniform_int_def)

lemma uniform_int_Inl: "uniform_int g lo hi = Inl e \<Longrightarrow> hi < lo"
  by (simp add: uniform_int_def split: if_splits)

lemma py_index_nat: "0 \<le> i \<Longrightarrow> i < int (length xs) \<Longrightarrow> py_index xs i = Inr (nat i)"
  by (simp add: py_index_def)

lemma py_get_nat: "0 \<le> i \<Longrightarrow> i < int (length xs) \<Longrightarrow> py_get xs i = Inr (xs ! nat i)"
  by (simp add: py_get_def py_index_nat)

lemma py_set_nat: "0 \<le> i \<Longrightarrow> i < int (length xs) \<Longrightarrow> py_set xs i v = Inr (xs[nat i := v])"
  by (simp add: py_set_def py_index_nat)

lemma py_add_nat:
  "0 \<le> i \<Longrightarrow> i < int (length xs) \<Longrightarrow> py_add xs i v = Inr (xs[nat i := xs ! nat i + v])"
  by (simp add: py_add_def py_get_nat py_set_nat)

lemma py_range_simps [simp]:
  "length (py_range k) = nat k" "set (py_range k) = {0..<k}" "distinct (py_range k)"
  "i < nat k \<Longrightarrow> py_range k ! i = int i"
     apply (auto simp: py_range_def distinct_map inj_on_def)
  subgoal for x by (rule image_eqI[where x = "nat x"]) auto
  done

lemma mapE_empty_range: "k \<le> 0 \<Longrightarrow> mapE f (py_range k) = Inr []"
  by (simp add: py_range_def)

section \<open>Reset with a non-positive size\<close>

text \<open>
  C9 (as amended). No \<open>reset\<close> checks \<open>n\<close>: for \<open>n < 1\<close> it succeeds for every dealer
  class and leaves a dealer with \<open>num_drawn = 0\<close> and \<open>remaining() = n\<close> on which
  \<open>draw\<close> fails with the Exhausted error.
\<close>

theorem reset_small_n_succeeds:
  "k < 1 \<Longrightarrow> \<exists>s. reset cls k g params = Inr s \<and> total_of s = k \<and> drawn_of s = 0
      \<and> remaining s = k \<and> draw s = Some (Inl Exhausted)"
  by (cases cls)
     (auto simp: bitmap_reset_def fisher_yates_reset_def adaptive_reset_def perfect_reset_def
        bitmap_draw_def fisher_yates_draw_def adaptive_draw_def perfect_draw_def
        bitmap_remaining_def adaptive_remaining_def perfect_remaining_def
        check_exhausted_def Let_def mapE_empty_range cell_width_def
        divide_nonpos_pos)

theorem reset_small_n_succeeds_witness:
  "(0::int) < 1 \<and> (\<exists>s. reset PerfectDealer 0 (const_rng 0) None = Inr s \<and> total_of s = 0
      \<and> drawn_of s = 0 \<and> remaining s = 0 \<and> draw s = Some (Inl Exhausted))"
  using reset_small_n_succeeds [of 0 PerfectDealer "const_rng 0" None] by simp

text \<open>
  C9 as stated fails: \<open>reset(0, rng)\<close> on a BitmapDealer returns an initialised dealer,
  not an error.
\<close>

theorem reset_zero_no_error:
  "reset BitmapDealer 0 (const_rng 0) None =
     Inr (Bitmap \<lparr>dealer_n = 0, np_random = const_rng 0, num_drawn = 0, available = []\<rparr>)"
  by (simp add: bitmap_reset_def)

lemma sub_mset_distinct:
  assumes "mset xs + M = mset ys" "distinct ys"
  shows "distinct xs \<and> set xs \<subseteq> set ys"
proof -
  have sub: "mset xs \<subseteq># mset ys" using assms(1) by (metis mset_subset_eq_add_left)
  have "\<And>a. count (mset xs) a \<le> 1"
  proof -
    fix a
    have "count (mset xs) a \<le> count (mset ys) a" using sub by (simp add: mset_subset_eq_count)
    also have "\<dots> \<le> 1" using assms(2) by (simp add: distinct_count_atmost_1 split: if_splits)
    finally show "count (mset xs) a \<le> 1" .
  qed
  then have "distinct xs"
    by (metis count_mset_0_iff distinct_count_atmost_1 le_antisym linorder_not_le less_one nat_less_le)
  moreover have "set xs \<subseteq> set ys" using set_mset_mono[OF sub] by simp
  ultimately show ?thesis by simp
qed

lemma swap_delete_mset:
  assumes "i < m" "m \<le> length arr"
  shows "add_mset (arr ! i) (mset (take (m - 1) (arr[i := arr ! (m - 1)]))) = mset (take m arr)"
proof -
  obtain j where m: "m = Suc j" using assms(1) by (cases m) auto
  have jl: "j < length arr" using assms m by simp
  have t: "take m arr = take j arr @ [arr ! j]" using jl m by (simp add: take_Suc_conv_app_nth)
  show ?thesis
  proof (cases "i = j")
    case True
    then show ?thesis using t m by simp
  next
    case False
    then have ij: "i < j" using assms m by simp
    have "take j (arr[i := arr ! j]) = (take j arr)[i := arr ! j]"
      by (simp add: take_update_swap)
    moreover have "i < length (take j arr)" using ij jl by simp
    moreover have "take j arr ! i = arr ! i" using ij by simp
    moreover have "arr ! i \<in># mset (take j arr)"
      using ij jl by (metis \<open>i < length (take j arr)\<close> \<open>take j arr ! i = arr ! i\<close> nth_mem set_mset_mset)
    ultimately show ?thesis using t m
      by (simp add: mset_update add_mset_commute)
  qed
qed

lemma fisher_yates_reset_inv: "0 \<le> k \<Longrightarrow> fisher_yates_inv k [] (fisher_yates_reset k g)"
  by (simp add: fisher_yates_inv_def fisher_yates_reset_def)

lemma fisher_yates_draw_exhausted:
  "fisher_yates_inv k outs s \<Longrightarrow> num_drawn s = k \<Longrightarrow> fisher_yates_draw s = Inl Exhausted"
  by (simp add: fisher_yates_inv_def fisher_yates_draw_def check_exhausted_def)

lemma fisher_yates_draw_step:
  assumes inv: "fisher_yates_inv k outs s" and lt: "num_drawn s < k"
  shows "\<exists>x s'. fisher_yates_draw s = Inr (x, s') \<and> fisher_yates_inv k (outs @ [x]) s'"
proof -
  let ?m = "fy_remaining s"
  have I1: "dealer_n s = k" and I2: "num_drawn s = int (length outs)"
    and I3: "?m = k - num_drawn s" and I5: "nat ?m \<le> length (fy_array s)"
    and I6: "mset outs + mset (take (nat ?m) (fy_array s)) = mset (py_range k)"
    using inv unfolding fisher_yates_inv_def by blast+
  have m0: "0 < ?m" using I3 lt by simp
  obtain i g where u: "uniform_int (np_random s) 0 (?m - 1) = Inr (i, g)"
    using uniform_int_ok[of 0 "?m - 1" "np_random s"] m0 by auto
  have i: "0 \<le> i" "i \<le> ?m - 1" using uniform_int_range[OF u] by auto
  have il: "i < int (length (fy_array s))" "?m - 1 < int (length (fy_array s))"
    using i I5 m0 by linarith+
  have n1: "nat (?m - 1) = nat ?m - 1" by simp
  let ?x = "fy_array s ! nat i"
  let ?arr = "(fy_array s)[nat i := fy_array s ! nat (?m - 1)]"
  let ?s' = "s\<lparr>np_random := g, num_drawn := num_drawn s + 1, fy_array := ?arr,
                fy_remaining := ?m - 1\<rparr>"
  have ms: "add_mset ?x (mset (take (nat ?m - 1) ?arr)) = mset (take (nat ?m) (fy_array s))"
    unfolding n1 using swap_delete_mset[of "nat i" "nat ?m" "fy_array s"] i m0 I5 by auto
  have g1: "py_get (fy_array s) i = Inr ?x" using i il by (simp add: py_get_nat)
  have g2: "py_get (fy_array s) (?m - 1) = Inr (fy_array s ! nat (?m - 1))"
    using il m0 by (simp add: py_get_nat)
  have g3: "py_set (fy_array s) i (fy_array s ! nat (?m - 1)) = Inr ?arr"
    using i il by (simp add: py_set_nat)
  have ce: "\<not> check_exhausted s" using lt I1 by (simp add: check_exhausted_def)
  have d: "fisher_yates_draw s = Inr (?x, ?s')"
    unfolding fisher_yates_draw_def using ce u g1 g2 g3 by simp
  have "mset (outs @ [?x]) + mset (take (nat (?m - 1)) ?arr)
        = mset outs + add_mset ?x (mset (take (nat ?m - 1) ?arr))"
    unfolding n1 by simp
  also have "\<dots> = mset (py_range k)" unfolding ms by (rule I6)
  finally have e: "mset (outs @ [?x]) + mset (take (nat (?m - 1)) ?arr) = mset (py_range k)" .
  have l: "nat (?m - 1) \<le> length ?arr" using I5 by simp
  have f: "fisher_yates_inv k (outs @ [?x]) ?s'"
    unfolding fisher_yates_inv_def using I1 I2 I3 m0 e l by simp
  show ?thesis
    by (rule exI[of _ ?x], rule exI[of _ ?s']) (rule conjI[OF d f])
qed

lemma bitmap_reset_inv: "bitmap_inv k [] (bitmap_reset k g)"
proof -
  have "\<And>i. 0 \<le> i \<Longrightarrow> i < k \<Longrightarrow> replicate (nat k) (1::nat) ! nat i \<noteq> 0"
  proof -
    fix i :: int assume "0 \<le> i" "i < k"
    then have "nat i < nat k" by simp
    then show "replicate (nat k) (1::nat) ! nat i \<noteq> 0" by simp
  qed
  then have "{i. 0 \<le> i \<and> i < k \<and> replicate (nat k) (1::nat) ! nat i = 0} = {}" by blast
  then show ?thesis by (simp add: bitmap_inv_def bitmap_reset_def)
qed

lemma bitmap_inv_sub:
  assumes "bitmap_inv k outs s"
  shows "distinct outs \<and> set outs \<subseteq> {0..<k}"
proof -
  have "distinct outs" and e: "set outs = {i. 0 \<le> i \<and> i < k \<and> available s ! nat i = 0}"
    using assms unfolding bitmap_inv_def by simp_all
  moreover have "set outs \<subseteq> {0..<k}" unfolding e by auto
  ultimately show ?thesis by simp
qed

lemma bitmap_draw_exhausted:
  "bitmap_inv k outs s \<Longrightarrow> num_drawn s = k \<Longrightarrow> bitmap_draw s = Some (Inl Exhausted)"
  by (simp add: bitmap_inv_def bitmap_draw_def check_exhausted_def)

text \<open>One accepted iteration of the rejection loop keeps the invariant.\<close>

lemma bitmap_accept_inv:
  assumes inv: "bitmap_inv k outs s" and c: "0 \<le> c" "c < k" and a: "available s ! nat c \<noteq> 0"
  shows "bitmap_inv k (outs @ [c])
           (s\<lparr>np_random := g, num_drawn := num_drawn s + 1,
              available := (available s)[nat c := 0]\<rparr>)"
proof -
  have I1: "dealer_n s = k" and I2: "num_drawn s = int (length outs)"
    and I3: "length (available s) = nat k" and I4: "distinct outs"
    and I5: "set outs = {i. 0 \<le> i \<and> i < k \<and> available s ! nat i = 0}"
    using inv unfolding bitmap_inv_def by simp_all
  have nc: "c \<notin> set outs" unfolding I5 using a by simp
  have cl: "nat c < length (available s)" using c I3 by simp
  have e: "insert c (set outs) = {i. 0 \<le> i \<and> i < k \<and> (available s)[nat c := 0] ! nat i = 0}"
  proof (rule set_eqI)
    fix i
    show "i \<in> insert c (set outs) \<longleftrightarrow>
          i \<in> {i. 0 \<le> i \<and> i < k \<and> (available s)[nat c := 0] ! nat i = 0}"
    proof (cases "i = c")
      case True
      then show ?thesis using c cl by simp
    next
      case False
      have "0 \<le> i \<Longrightarrow> nat c \<noteq> nat i" using False c by simp
      then have "0 \<le> i \<Longrightarrow> (available s)[nat c := 0] ! nat i = available s ! nat i"
        by simp
      then show ?thesis unfolding I5 using False by (simp cong: conj_cong)
    qed
  qed
  show ?thesis
    unfolding bitmap_inv_def using I1 I2 I3 I4 nc e by simp
qed

lemma bitmap_loop_inv:
  assumes run: "bitmap_loop s0 = Some y0"
  shows "bitmap_inv k outs s0 \<longrightarrow> num_drawn s0 < k \<longrightarrow>
         (\<exists>c s'. y0 = Inr (c, s') \<and> bitmap_inv k (outs @ [c]) s')"
proof (rule bitmap_loop.raw_induct[where P = "\<lambda>s y. bitmap_inv k outs s \<longrightarrow> num_drawn s < k \<longrightarrow>
         (\<exists>c s'. y = Inr (c, s') \<and> bitmap_inv k (outs @ [c]) s')", OF _ run])
  fix f :: "bitmap \<Rightarrow> (error + (int \<times> bitmap)) option" and s y
  assume ih: "\<And>x y. f x = Some y \<Longrightarrow> bitmap_inv k outs x \<longrightarrow> num_drawn x < k \<longrightarrow>
         (\<exists>c s'. y = Inr (c, s') \<and> bitmap_inv k (outs @ [c]) s')"
  assume step: "(case uniform_int (np_random s) 0 (dealer_n s - 1) of
        Inl e \<Rightarrow> Some (Inl e)
      | Inr (c, g) \<Rightarrow>
          (case py_get (available s) c of
             Inl e \<Rightarrow> Some (Inl e)
           | Inr a \<Rightarrow>
               if a \<noteq> 0
               then (case py_set (available s) c 0 of
                       Inl e \<Rightarrow> Some (Inl e)
                     | Inr av \<Rightarrow>
                         Some (Inr (c, s\<lparr>np_random := g, num_drawn := num_drawn s + 1,
                                         available := av\<rparr>)))
               else f (s\<lparr>np_random := g\<rparr>))) = Some y"
  show "bitmap_inv k outs s \<longrightarrow> num_drawn s < k \<longrightarrow>
         (\<exists>c s'. y = Inr (c, s') \<and> bitmap_inv k (outs @ [c]) s')"
  proof (intro impI)
    assume inv: "bitmap_inv k outs s" and lt: "num_drawn s < k"
    have I1: "dealer_n s = k" and I3: "length (available s) = nat k"
      and I2: "num_drawn s = int (length outs)"
      using inv unfolding bitmap_inv_def by simp_all
    have kpos: "0 < k" using lt I2 by simp
    obtain c g where u: "uniform_int (np_random s) 0 (dealer_n s - 1) = Inr (c, g)"
      using uniform_int_ok[of 0 "dealer_n s - 1" "np_random s"] kpos I1 by auto
    have c: "0 \<le> c" "c < k" using uniform_int_range[OF u] I1 by auto
    have cl: "c < int (length (available s))" using c I3 by simp
    have g1: "py_get (available s) c = Inr (available s ! nat c)"
      using c cl by (simp add: py_get_nat)
    have g2: "py_set (available s) c 0 = Inr ((available s)[nat c := 0])"
      using c cl by (simp add: py_set_nat)
    show "\<exists>c s'. y = Inr (c, s') \<and> bitmap_inv k (outs @ [c]) s'"
    proof (cases "available s ! nat c \<noteq> 0")
      case True
      let ?s' = "s\<lparr>np_random := g, num_drawn := num_drawn s + 1,
                    available := (available s)[nat c := 0]\<rparr>"
      have y: "y = Inr (c, ?s')" using step u g1 g2 True by simp
      have f: "bitmap_inv k (outs @ [c]) ?s'" using bitmap_accept_inv[OF inv c True] .
      show ?thesis by (rule exI[of _ c], rule exI[of _ ?s']) (rule conjI[OF y f])
    next
      case False
      then have r: "f (s\<lparr>np_random := g\<rparr>) = Some y" using step u g1 by simp
      have inv': "bitmap_inv k outs (s\<lparr>np_random := g\<rparr>)"
        using inv unfolding bitmap_inv_def by simp
      have lt': "num_drawn (s\<lparr>np_random := g\<rparr>) < k" using lt by simp
      show ?thesis using ih[OF r] inv' lt' by (rule_tac mp[OF mp]) 
    qed
  qed
qed

lemma bitmap_draw_step:
  assumes "bitmap_inv k outs s" "num_drawn s < k" "bitmap_draw s = Some y"
  shows "\<exists>c s'. y = Inr (c, s') \<and> bitmap_inv k (outs @ [c]) s'"
proof -
  have "\<not> check_exhausted s" using assms(1,2) by (simp add: check_exhausted_def bitmap_inv_def)
  then have "bitmap_loop s = Some y" using assms(3) by (simp add: bitmap_draw_def)
  from bitmap_loop_inv[OF this] assms(1,2) show ?thesis by simp
qed

lemma adaptive_d_bounds: "1 \<le> adaptive_d k mb" "2 \<le> k \<Longrightarrow> 2 * adaptive_d k mb \<le> k"
  by (auto simp: adaptive_d_def Let_def)

lemma deck_start_Suc: "deck_start q r (Suc n) = deck_start q r n + deck_size q r n"
  by (simp add: deck_start_def deck_size_def algebra_simps min_def)

lemma partition_fold:
  "0 \<le> r \<Longrightarrow> foldl (partition_step q r) ([], [], 0) (map int [0..<n]) =
     (map (deck_size q r) [0..<n], map (deck_start q r) [0..<n], deck_start q r n)"
proof (induction n)
  case 0
  then show ?case by (simp add: deck_start_def)
next
  case (Suc n)
  then show ?case
    by (simp add: partition_step_def Let_def deck_start_Suc) (simp add: deck_size_def)
qed

lemma sum_deck_size: "0 \<le> r \<Longrightarrow> sum_list (map (deck_size q r) [0..<n]) = deck_start q r n"
proof (induction n)
  case 0
  then show ?case by (simp add: deck_start_def)
next
  case (Suc n)
  then show ?case by (simp add: deck_start_Suc)
qed

lemma py_range2_split:
  assumes "0 \<le> a" "0 \<le> b"
  shows "mset (py_range (a + b)) = mset (py_range a) + mset (py_range2 a (a + b))"
proof -
  have n: "nat (a + b) = nat a + nat b" using assms by (simp add: nat_add_distrib)
  have "[0..<nat a + nat b] = [0..<nat a] @ [nat a..<nat a + nat b]"
    by (metis le_add1 upt_add_eq_append zero_le)
  moreover have "map int [nat a..<nat a + nat b] = map (\<lambda>j. a + int j) [0..<nat b]"
    using assms by (intro nth_equalityI) simp_all
  ultimately show ?thesis by (simp add: py_range_def py_range2_def n)
qed


lemma pool_init:
  assumes "0 \<le> q" "0 \<le> r"
  shows "(\<Sum>i<n. mset (py_range2 (deck_start q r i) (deck_start q r i + deck_size q r i)))
         = mset (py_range (deck_start q r n))"
proof (induction n)
  case 0
  then show ?case using assms by (simp add: deck_start_def py_range_def)
next
  case (Suc n)
  have a: "0 \<le> deck_start q r n" using assms by (simp add: deck_start_def)
  have b: "0 \<le> deck_size q r n" using assms by (simp add: deck_size_def)
  show ?case using Suc py_range2_split[OF a b] by (simp add: deck_start_Suc)
qed

lemma adaptive_reset_inv:
  assumes k: "0 \<le> k"
  shows "adaptive_inv k [] (adaptive_reset k g params)"
proof -
  define mb where "mb = (case params of None \<Rightarrow> (64::int) | Some m \<Rightarrow> m)"
  define d where "d = adaptive_d k mb"
  define q where "q = k div d"
  define r where "r = k mod d"
  have d1: "1 \<le> d" unfolding d_def by (rule adaptive_d_bounds)
  have q0: "0 \<le> q" unfolding q_def using k d1 by (simp add: pos_imp_zdiv_nonneg_iff)
  have r0: "0 \<le> r" and rd: "r < d" unfolding r_def using d1 by simp_all
  have dn: "int (nat d) = d" using d1 by simp
  have kk: "deck_start q r (nat d) = k"
    unfolding deck_start_def dn using rd by (simp add: q_def r_def min_def)
  let ?s = "\<lparr>dealer_n = k, np_random = g, num_drawn = 0,
          ad_d = d, sizes = map (deck_size q r) [0..<nat d],
          starts = map (deck_start q r) [0..<nat d],
          ell = replicate (nat d) 0, ad_t = 0, phase = AdaptivePhase,
          final_cards = [], final_remaining = 0, m_bits = mb\<rparr>"
  have e: "adaptive_reset k g params = ?s"
    unfolding adaptive_reset_def Let_def py_range_def mb_def[symmetric] d_def[symmetric]
      q_def[symmetric] r_def[symmetric] partition_fold[OF r0] by simp
  have po: "partition_ok k ?s"
    unfolding partition_ok_def using d1 sum_deck_size[OF r0, of q "nat d"] kk
    by (simp add: q_def[symmetric]) (simp add: deck_size_def)
  have pool: "adaptive_pool ?s = mset (py_range k)"
    unfolding adaptive_pool_def deck_slice_def using pool_init[OF q0 r0, of "nat d"] kk by simp
  have sz: "\<forall>i<nat d. 0 \<le> deck_size q r i" using q0 by (simp add: deck_size_def)
  have z: "sum_list (replicate (nat d) (0::int)) = 0" by (simp add: sum_list_replicate)
  show ?thesis unfolding e adaptive_inv_def using po pool sz z by simp
qed

lemma mapE_all_ok: "(\<And>x. x \<in> set xs \<Longrightarrow> f x = Inr (h x)) \<Longrightarrow> mapE f xs = Inr (map h xs)"
  by (induction xs) simp_all

lemma filterE_all_ok:
  "(\<And>x. x \<in> set xs \<Longrightarrow> c x = Inr (p x)) \<Longrightarrow> filterE c xs = Inr (filter p xs)"
  by (induction xs) simp_all

lemma mset_concat_upt:
  "mset (concat (map f [0..<n])) = (\<Sum>i<n. mset (f i))"
  by (induction n) simp_all

lemma partition_okD:
  assumes "partition_ok k s"
  shows "1 \<le> ad_d s" "length (sizes s) = nat (ad_d s)" "length (starts s) = nat (ad_d s)"
    "length (ell s) = nat (ad_d s)" "sum_list (sizes s) = k"
  using assms unfolding partition_ok_def by simp_all

lemma adaptive_inv_baseD:
  assumes "adaptive_inv k outs s"
  shows "dealer_n s = k" "num_drawn s = int (length outs)" "partition_ok k s"
  using assms unfolding adaptive_inv_def by blast+

lemma adaptive_inv_finalD:
  assumes "adaptive_inv k outs s" "phase s = FinalPhase"
  shows "final_remaining s = k - num_drawn s" "0 \<le> final_remaining s"
    "nat (final_remaining s) \<le> length (final_cards s)"
    "mset outs + mset (take (nat (final_remaining s)) (final_cards s)) = mset (py_range k)"
  using assms(1) unfolding adaptive_inv_def assms(2) phase.case by blast+

lemma adaptive_inv_adaptiveD:
  assumes "adaptive_inv k outs s" "phase s = AdaptivePhase"
  shows "ad_t s = num_drawn s" "sum_list (ell s) = num_drawn s"
    "\<forall>i<nat (ad_d s). 0 \<le> ell s ! i \<and> ell s ! i \<le> sizes s ! i"
    "mset outs + adaptive_pool s = mset (py_range k)"
  using assms(1) unfolding adaptive_inv_def assms(2) phase.case by blast+

lemma adaptive_inv_finalI:
  assumes "dealer_n s = k" "num_drawn s = int (length outs)" "partition_ok k s"
    "phase s = FinalPhase"
    "final_remaining s = k - num_drawn s" "0 \<le> final_remaining s"
    "nat (final_remaining s) \<le> length (final_cards s)"
    "mset outs + mset (take (nat (final_remaining s)) (final_cards s)) = mset (py_range k)"
  shows "adaptive_inv k outs s"
  unfolding adaptive_inv_def assms(4) phase.case using assms by blast

lemma adaptive_inv_adaptiveI:
  assumes "dealer_n s = k" "num_drawn s = int (length outs)" "partition_ok k s"
    "phase s = AdaptivePhase"
    "ad_t s = num_drawn s" "sum_list (ell s) = num_drawn s"
    "\<forall>i<nat (ad_d s). 0 \<le> ell s ! i \<and> ell s ! i \<le> sizes s ! i"
    "mset outs + adaptive_pool s = mset (py_range k)"
  shows "adaptive_inv k outs s"
  unfolding adaptive_inv_def assms(4) phase.case using assms by blast

lemma adaptive_final_step:
  assumes inv: "adaptive_inv k outs s" and ph: "phase s = FinalPhase" and lt: "num_drawn s < k"
  shows "\<exists>x s'. draw_final s = Inr (x, s') \<and> adaptive_inv k (outs @ [x]) s'"
proof -
  let ?m = "final_remaining s"
  note I1 = adaptive_inv_baseD(1)[OF inv] and I2 = adaptive_inv_baseD(2)[OF inv]
    and po = adaptive_inv_baseD(3)[OF inv]
  note I3 = adaptive_inv_finalD(1)[OF inv ph] and I5 = adaptive_inv_finalD(3)[OF inv ph]
    and I6 = adaptive_inv_finalD(4)[OF inv ph]
  have m0: "0 < ?m" using I3 lt by simp
  obtain i g where u: "uniform_int (np_random s) 0 (?m - 1) = Inr (i, g)"
    using uniform_int_ok[of 0 "?m - 1" "np_random s"] m0 by auto
  have i: "0 \<le> i" "i \<le> ?m - 1" using uniform_int_range[OF u] by auto
  have il: "i < int (length (final_cards s))" "?m - 1 < int (length (final_cards s))"
    using i I5 m0 by linarith+
  have n1: "nat (?m - 1) = nat ?m - 1" by simp
  let ?x = "final_cards s ! nat i"
  let ?arr = "(final_cards s)[nat i := final_cards s ! nat (?m - 1)]"
  let ?s' = "s\<lparr>np_random := g, num_drawn := num_drawn s + 1, final_cards := ?arr,
                final_remaining := ?m - 1\<rparr>"
  have ms: "add_mset ?x (mset (take (nat ?m - 1) ?arr)) = mset (take (nat ?m) (final_cards s))"
    unfolding n1 using swap_delete_mset[of "nat i" "nat ?m" "final_cards s"] i m0 I5 by auto
  have g1: "py_get (final_cards s) i = Inr ?x" using i il by (simp add: py_get_nat)
  have g2: "py_get (final_cards s) (?m - 1) = Inr (final_cards s ! nat (?m - 1))"
    using il m0 by (simp add: py_get_nat)
  have g3: "py_set (final_cards s) i (final_cards s ! nat (?m - 1)) = Inr ?arr"
    using i il by (simp add: py_set_nat)
  have d: "draw_final s = Inr (?x, ?s')"
    unfolding draw_final_def using m0 u g1 g2 g3 by simp
  have "mset (outs @ [?x]) + mset (take (nat (?m - 1)) ?arr)
        = mset outs + add_mset ?x (mset (take (nat ?m - 1) ?arr))"
    unfolding n1 by simp
  also have "\<dots> = mset (py_range k)" unfolding ms by (rule I6)
  finally have e: "mset (outs @ [?x]) + mset (take (nat (?m - 1)) ?arr) = mset (py_range k)" .
  have l: "nat (?m - 1) \<le> length ?arr" using I5 by simp
  have po': "partition_ok k ?s'" using po unfolding partition_ok_def by simp
  have f: "adaptive_inv k (outs @ [?x]) ?s'"
    by (rule adaptive_inv_finalI) (use I1 I2 I3 m0 e l ph po' in simp_all)
  show ?thesis
    by (rule exI[of _ ?x], rule exI[of _ ?s']) (rule conjI[OF d f])
qed

lemma sum_list_update_int:
  "j < length xs \<Longrightarrow> sum_list (xs[j := v]) = sum_list xs - xs ! j + (v::int)"
proof (induction xs arbitrary: j)
  case Nil
  then show ?case by simp
next
  case (Cons x xs)
  then show ?case by (cases j) simp_all
qed

lemma py_range2_Cons: "a < b \<Longrightarrow> py_range2 a b = a # py_range2 (a + 1) b"
proof -
  assume ab: "a < b"
  then obtain m where m: "nat (b - a) = Suc m" by (cases "nat (b - a)") auto
  then have m': "nat (b - (a + 1)) = m" by linarith
  have "map (\<lambda>j. a + int j) [0..<Suc m] = a # map (\<lambda>j. a + 1 + int j) [0..<m]"
    by (simp add: upt_conv_Cons map_Suc_upt[symmetric] del: upt_Suc)
  then show ?thesis unfolding py_range2_def m m' .
qed

lemma adaptive_pool_cong:
  assumes "ad_d s' = ad_d s" "starts s' = starts s" "sizes s' = sizes s" "ell s' = ell s"
  shows "adaptive_pool s' = adaptive_pool s"
  unfolding adaptive_pool_def deck_slice_def assms ..

lemma partition_ok_cong:
  assumes "ad_d s' = ad_d s" "starts s' = starts s" "sizes s' = sizes s"
    "length (ell s') = length (ell s)"
  shows "partition_ok k s' = partition_ok k s"
  unfolding partition_ok_def assms ..

lemma adaptive_pool_take:
  assumes j: "j < nat (ad_d s)" and lt: "ell s ! j < sizes s ! j"
    and l: "length (ell s) = nat (ad_d s)"
    and s': "ad_d s' = ad_d s" "starts s' = starts s" "sizes s' = sizes s"
      "ell s' = (ell s)[j := ell s ! j + 1]"
  shows "adaptive_pool s = add_mset (starts s ! j + ell s ! j) (adaptive_pool s')"
proof -
  let ?n = "nat (ad_d s)"
  have fin: "finite {..<?n}" and jin: "j \<in> {..<?n}" using j by simp_all
  have a: "adaptive_pool s = mset (deck_slice s j) + (\<Sum>i\<in>{..<?n} - {j}. mset (deck_slice s i))"
    unfolding adaptive_pool_def by (rule sum.remove[OF fin jin])
  have b: "adaptive_pool s' = mset (deck_slice s' j) + (\<Sum>i\<in>{..<?n} - {j}. mset (deck_slice s' i))"
    unfolding adaptive_pool_def s' by (rule sum.remove[OF fin jin])
  have c: "(\<Sum>i\<in>{..<?n} - {j}. mset (deck_slice s' i)) = (\<Sum>i\<in>{..<?n} - {j}. mset (deck_slice s i))"
    by (rule sum.cong) (simp_all add: deck_slice_def s')
  have "deck_slice s' j = py_range2 (starts s ! j + ell s ! j + 1) (starts s ! j + sizes s ! j)"
    unfolding deck_slice_def s' using j l by (simp add: add.assoc)
  moreover have "deck_slice s j = (starts s ! j + ell s ! j)
      # py_range2 (starts s ! j + ell s ! j + 1) (starts s ! j + sizes s ! j)"
    unfolding deck_slice_def using lt by (intro py_range2_Cons) simp
  ultimately have d: "mset (deck_slice s j) = add_mset (starts s ! j + ell s ! j) (mset (deck_slice s' j))"
    by simp
  show ?thesis unfolding a b c d by simp
qed

lemma adaptive_midD:
  assumes "adaptive_mid k outs s"
  shows "phase s = AdaptivePhase" "dealer_n s = k" "num_drawn s = int (length outs)"
    "partition_ok k s" "ad_t s = num_drawn s + 1" "sum_list (ell s) = num_drawn s"
    "\<forall>i<nat (ad_d s). 0 \<le> ell s ! i \<and> ell s ! i \<le> sizes s ! i"
    "mset outs + adaptive_pool s = mset (py_range k)"
proof -
  let ?s = "s\<lparr>ad_t := ad_t s - 1\<rparr>"
  have ph: "phase s = AdaptivePhase" and inv: "adaptive_inv k outs ?s"
    using assms unfolding adaptive_mid_def by simp_all
  have ph': "phase ?s = AdaptivePhase" using ph by simp
  show "phase s = AdaptivePhase" by (rule ph)
  show "dealer_n s = k" using adaptive_inv_baseD(1)[OF inv] by simp
  show "num_drawn s = int (length outs)" using adaptive_inv_baseD(2)[OF inv] by simp
  show "partition_ok k s"
    using adaptive_inv_baseD(3)[OF inv] partition_ok_cong[of ?s s k] by simp
  show "ad_t s = num_drawn s + 1" using adaptive_inv_adaptiveD(1)[OF inv ph'] by simp
  show "sum_list (ell s) = num_drawn s" using adaptive_inv_adaptiveD(2)[OF inv ph'] by simp
  show "\<forall>i<nat (ad_d s). 0 \<le> ell s ! i \<and> ell s ! i \<le> sizes s ! i"
    using adaptive_inv_adaptiveD(3)[OF inv ph'] by simp
  show "mset outs + adaptive_pool s = mset (py_range k)"
    using adaptive_inv_adaptiveD(4)[OF inv ph'] adaptive_pool_cong[of ?s s] by simp
qed

lemma adaptive_mid_start:
  assumes inv: "adaptive_inv k outs s" and ph: "phase s = AdaptivePhase"
  shows "adaptive_mid k outs (s\<lparr>ad_t := ad_t s + 1\<rparr>)"
proof -
  have "s\<lparr>ad_t := ad_t s + 1\<rparr>\<lparr>ad_t := ad_t (s\<lparr>ad_t := ad_t s + 1\<rparr>) - 1\<rparr> = s" by simp
  then show ?thesis unfolding adaptive_mid_def using inv ph by simp
qed

lemma adaptive_mid_rng:
  assumes "adaptive_mid k outs s"
  shows "adaptive_mid k outs (s\<lparr>np_random := g\<rparr>)"
proof -
  note D = adaptive_midD[OF assms]
  let ?s = "s\<lparr>np_random := g\<rparr>\<lparr>ad_t := ad_t (s\<lparr>np_random := g\<rparr>) - 1\<rparr>"
  have "adaptive_inv k outs ?s"
  proof (rule adaptive_inv_adaptiveI)
    show "partition_ok k ?s" using D(4) partition_ok_cong[of ?s s k] by simp
    show "mset outs + adaptive_pool ?s = mset (py_range k)"
      using D(8) adaptive_pool_cong[of ?s s] by simp
  qed (use D in simp_all)
  then show ?thesis unfolding adaptive_mid_def using D(1) by simp
qed

lemma adaptive_accept_step:
  assumes mid: "adaptive_mid k outs s" and i: "0 \<le> i" "i < ad_d s"
    and lt: "ell s ! nat i < sizes s ! nat i"
  shows "\<exists>s'. adaptive_accept s i = Inr (starts s ! nat i + ell s ! nat i, s') \<and>
           adaptive_inv k (outs @ [starts s ! nat i + ell s ! nat i]) s' \<and>
           phase s' = AdaptivePhase"
proof -
  note D = adaptive_midD[OF mid]
  note P = partition_okD[OF D(4)]
  let ?j = "nat i"
  let ?c = "starts s ! ?j + ell s ! ?j"
  let ?s' = "s\<lparr>num_drawn := num_drawn s + 1, ell := (ell s)[?j := ell s ! ?j + 1]\<rparr>"
  have j: "?j < nat (ad_d s)" using i by simp
  have il: "i < int (length (starts s))" "i < int (length (ell s))" using i P by simp_all
  have g1: "py_get (starts s) i = Inr (starts s ! ?j)" using i il by (simp add: py_get_nat)
  have g2: "py_get (ell s) i = Inr (ell s ! ?j)" using i il by (simp add: py_get_nat)
  have g3: "py_set (ell s) i (ell s ! ?j + 1) = Inr ((ell s)[?j := ell s ! ?j + 1])"
    using i il by (simp add: py_set_nat)
  have a: "adaptive_accept s i = Inr (?c, ?s')"
    unfolding adaptive_accept_def top_card_def using g1 g2 g3 by simp
  have pool: "adaptive_pool s = add_mset ?c (adaptive_pool ?s')"
    by (rule adaptive_pool_take[OF j lt P(4)]) simp_all
  have inv': "adaptive_inv k (outs @ [?c]) ?s'"
  proof (rule adaptive_inv_adaptiveI)
    show "partition_ok k ?s'" using D(4) partition_ok_cong[of ?s' s k] by simp
    show "sum_list (ell ?s') = num_drawn ?s'"
      using D(6) j P(4) by (simp add: sum_list_update_int)
    show "\<forall>n<nat (ad_d ?s'). 0 \<le> ell ?s' ! n \<and> ell ?s' ! n \<le> sizes ?s' ! n"
    proof (intro allI impI)
      fix n assume n: "n < nat (ad_d ?s')"
      then have n': "n < nat (ad_d s)" by simp
      have b: "0 \<le> ell s ! n \<and> ell s ! n \<le> sizes s ! n" using D(7) n' by simp
      show "0 \<le> ell ?s' ! n \<and> ell ?s' ! n \<le> sizes ?s' ! n"
      proof (cases "n = ?j")
        case True
        then show ?thesis using b lt j P(4) by simp
      next
        case False
        then show ?thesis using b by simp
      qed
    qed
    have "mset (outs @ [?c]) + adaptive_pool ?s' = mset outs + add_mset ?c (adaptive_pool ?s')"
      by simp
    then show "mset (outs @ [?c]) + adaptive_pool ?s' = mset (py_range k)"
      unfolding pool[symmetric] D(8) .
  qed (use D in simp_all)
  have ph': "phase ?s' = AdaptivePhase" using D(1) by simp
  show ?thesis by (rule exI[of _ ?s']) (intro conjI a inv' ph')
qed

lemma is_drawable_in_range:
  assumes "partition_ok k s" "0 \<le> i" "i < ad_d s"
  shows "is_drawable s thr i = Inr (ell s ! nat i < thr \<and> ell s ! nat i < sizes s ! nat i)"
proof -
  note P = partition_okD[OF assms(1)]
  have g1: "py_get (ell s) i = Inr (ell s ! nat i)" using assms P by (simp add: py_get_nat)
  have g2: "py_get (sizes s) i = Inr (sizes s ! nat i)" using assms P by (simp add: py_get_nat)
  show ?thesis unfolding is_drawable_def g1 g2 by simp
qed

lemma current_threshold_ok:
  assumes "1 \<le> ad_d s"
  shows "\<exists>thr. current_threshold s = Inr thr"
  using assms unfolding current_threshold_def by auto

lemma adaptive_transition:
  assumes inv: "adaptive_inv k outs s" and ph: "phase s = AdaptivePhase" and k0: "0 \<le> k"
  shows "\<exists>s'. transition_to_final (s\<lparr>ad_t := t'\<rparr>) = Inr s' \<and> adaptive_inv k outs s' \<and>
           phase s' = FinalPhase \<and> num_drawn s' = num_drawn s"
proof -
  note B = adaptive_inv_baseD[OF inv]
  note A = adaptive_inv_adaptiveD[OF inv ph]
  note P = partition_okD[OF B(3)]
  let ?s1 = "s\<lparr>ad_t := t'\<rparr>"
  let ?f = "\<lambda>i. case py_get (starts ?s1) i of
                          Inl e \<Rightarrow> Inl e
                        | Inr st \<Rightarrow>
                            (case py_get (ell ?s1) i of
                               Inl e \<Rightarrow> Inl e
                             | Inr l \<Rightarrow>
                                 (case py_get (sizes ?s1) i of
                                    Inl e \<Rightarrow> Inl e
                                  | Inr sz \<Rightarrow> Inr (py_range2 (st + l) (st + sz))))"
  have f: "\<And>i. i \<in> set (py_range (ad_d ?s1)) \<Longrightarrow> ?f i = Inr (deck_slice s (nat i))"
  proof -
    fix i assume "i \<in> set (py_range (ad_d ?s1))"
    then have i: "0 \<le> i" "i < ad_d s" by simp_all
    have g1: "py_get (starts s) i = Inr (starts s ! nat i)" using i P by (simp add: py_get_nat)
    have g2: "py_get (ell s) i = Inr (ell s ! nat i)" using i P by (simp add: py_get_nat)
    have g3: "py_get (sizes s) i = Inr (sizes s ! nat i)" using i P by (simp add: py_get_nat)
    show "?f i = Inr (deck_slice s (nat i))" using g1 g2 g3 by (simp add: deck_slice_def)
  qed
  let ?slices = "map (deck_slice s) [0..<nat (ad_d s)]"
  have m: "mapE ?f (py_range (ad_d ?s1)) = Inr ?slices"
    using mapE_all_ok[of "py_range (ad_d ?s1)" ?f "\<lambda>i. deck_slice s (nat i)", OF f]
    by (simp add: py_range_def comp_def)
  let ?fc = "concat ?slices"
  let ?s' = "?s1\<lparr>phase := FinalPhase, final_cards := ?fc,
                 final_remaining := int (length ?fc)\<rparr>"
  have t: "transition_to_final ?s1 = Inr ?s'"
    unfolding transition_to_final_def m by simp
  have pm: "mset ?fc = adaptive_pool s"
    unfolding adaptive_pool_def by (rule mset_concat_upt)
  have e: "mset outs + mset ?fc = mset (py_range k)" unfolding pm by (rule A(4))
  have "size (mset outs + mset ?fc) = size (mset (py_range k))" using e by simp
  then have len: "length outs + length ?fc = nat k" by simp
  have inv': "adaptive_inv k outs ?s'"
  proof (rule adaptive_inv_finalI)
    show "partition_ok k ?s'" using B(3) partition_ok_cong[of ?s' s k] by simp
    show "final_remaining ?s' = k - num_drawn ?s'" using len B(2) k0 by simp
    show "mset outs + mset (take (nat (final_remaining ?s')) (final_cards ?s')) = mset (py_range k)"
      using e by simp
  qed (use B in simp_all)
  have r: "phase ?s' = FinalPhase \<and> num_drawn ?s' = num_drawn s" by simp
  show ?thesis by (rule exI[of _ ?s']) (intro conjI t inv' conjunct1[OF r] conjunct2[OF r])
qed

lemma adaptive_post_rng:
  "adaptive_post k outs thr (s\<lparr>np_random := g\<rparr>) y \<Longrightarrow> adaptive_post k outs thr s y"
  unfolding adaptive_post_def by simp

lemma adaptive_loop_inv:
  assumes run: "adaptive_loop thr s0 = Some y0"
  shows "adaptive_mid k outs s0 \<longrightarrow> adaptive_post k outs thr s0 y0"
proof (rule adaptive_loop.raw_induct[where P = "\<lambda>thr s y. adaptive_mid k outs s \<longrightarrow>
         adaptive_post k outs thr s y", OF _ run])
  fix f :: "int \<Rightarrow> adaptive \<Rightarrow> (error + (int \<times> adaptive)) option" and thr s y
  assume ih: "\<And>thr x y. f thr x = Some y \<Longrightarrow> adaptive_mid k outs x \<longrightarrow>
         adaptive_post k outs thr x y"
  assume step: "(case uniform_int (np_random s) 0 (ad_d s - 1) of
        Inl e \<Rightarrow> Some (Inl e)
      | Inr (i, g) \<Rightarrow>
          (case is_drawable s thr i of
             Inl e \<Rightarrow> Some (Inl e)
           | Inr b \<Rightarrow>
               if b then Some (adaptive_accept (s\<lparr>np_random := g\<rparr>) i)
               else f thr (s\<lparr>np_random := g\<rparr>))) = Some y"
  show "adaptive_mid k outs s \<longrightarrow> adaptive_post k outs thr s y"
  proof
    assume mid: "adaptive_mid k outs s"
    note D = adaptive_midD[OF mid]
    note P = partition_okD[OF D(4)]
    obtain i g where u: "uniform_int (np_random s) 0 (ad_d s - 1) = Inr (i, g)"
      using uniform_int_ok[of 0 "ad_d s - 1" "np_random s"] P(1) by auto
    have i: "0 \<le> i" "i < ad_d s" using uniform_int_range[OF u] by auto
    note dr = is_drawable_in_range[OF D(4) i, of thr]
    let ?sg = "s\<lparr>np_random := g\<rparr>"
    have midg: "adaptive_mid k outs ?sg" by (rule adaptive_mid_rng[OF mid])
    show "adaptive_post k outs thr s y"
    proof (cases "ell s ! nat i < thr \<and> ell s ! nat i < sizes s ! nat i")
      case True
      have "is_drawable s thr i = Inr True" using dr True by simp
      then have y: "y = adaptive_accept ?sg i" using step u by simp
      have ig: "i < ad_d ?sg" "ell ?sg ! nat i < sizes ?sg ! nat i" using i True by simp_all
      obtain s' where a: "adaptive_accept ?sg i = Inr (starts ?sg ! nat i + ell ?sg ! nat i, s')"
        and inv': "adaptive_inv k (outs @ [starts ?sg ! nat i + ell ?sg ! nat i]) s'"
        and ph': "phase s' = AdaptivePhase"
        using adaptive_accept_step[OF midg i(1) ig] by auto
      have y': "y = Inr (starts s ! nat i + ell s ! nat i, s')" using y a by simp
      have inv'': "adaptive_inv k (outs @ [starts s ! nat i + ell s ! nat i]) s'"
        using inv' by simp
      show ?thesis unfolding adaptive_post_def
        by (rule exI[of _ i], rule exI[of _ s'])
           (intro conjI y' i inv'' ph' conjunct1[OF True] conjunct2[OF True])
    next
      case False
      have "is_drawable s thr i = Inr False" using dr False by simp
      then have r: "f thr ?sg = Some y" using step u by simp
      have "adaptive_post k outs thr ?sg y" using ih[OF r] midg by simp
      then show ?thesis by (rule adaptive_post_rng)
    qed
  qed
qed

lemma adaptive_draw_step:
  assumes inv: "adaptive_inv k outs s" and lt: "num_drawn s < k"
    and run: "adaptive_draw s = Some y"
  shows "\<exists>c s'. y = Inr (c, s') \<and> adaptive_inv k (outs @ [c]) s'"
proof -
  note B = adaptive_inv_baseD[OF inv]
  have k0: "0 \<le> k" using lt B(2) by simp
  have ce: "\<not> check_exhausted s" using lt B(1) by (simp add: check_exhausted_def)
  show ?thesis
  proof (cases "phase s")
    case FinalPhase
    have "y = draw_final s" using run ce FinalPhase by (simp add: adaptive_draw_def)
    then show ?thesis using adaptive_final_step[OF inv FinalPhase lt] by simp
  next
    case AdaptivePhase
    let ?s1 = "s\<lparr>ad_t := ad_t s + 1\<rparr>"
    have dr: "draw_adaptive s = Some y" using run ce AdaptivePhase by (simp add: adaptive_draw_def)
    show ?thesis
    proof (cases "ad_t ?s1 > dealer_n ?s1 - 2 * ad_d ?s1")
      case True
      obtain s2 where t: "transition_to_final ?s1 = Inr s2" and inv2: "adaptive_inv k outs s2"
        and ph2: "phase s2 = FinalPhase" and nd: "num_drawn s2 = num_drawn s"
        using adaptive_transition[OF inv AdaptivePhase k0, of "ad_t s + 1"] by auto
      have "y = draw_final s2" using dr True t by (simp add: draw_adaptive_def Let_def)
      moreover have "num_drawn s2 < k" using nd lt by simp
      ultimately show ?thesis using adaptive_final_step[OF inv2 ph2] by simp
    next
      case False
      have mid: "adaptive_mid k outs ?s1" by (rule adaptive_mid_start[OF inv AdaptivePhase])
      have "1 \<le> ad_d ?s1" using partition_okD(1)[OF B(3)] by simp
      then obtain thr where th: "current_threshold ?s1 = Inr thr"
        using current_threshold_ok by blast
      have "adaptive_loop thr ?s1 = Some y"
        using dr False th by (simp add: draw_adaptive_def Let_def)
      then have "adaptive_post k outs thr ?s1 y" using adaptive_loop_inv mid by blast
      then show ?thesis unfolding adaptive_post_def by blast
    qed
  qed
qed

section \<open>ShuffleGuessGame.step\<close>

text \<open>
  What \<open>step\<close> does on a game that is not over, whatever the action mode: the score grows
  by one exactly when the action equals the drawn id modulo 52, the histogram entry of that
  type is incremented, the turn advances and the game is over from turn \<open>n\<close> on.
\<close>

lemma step_effect:
  assumes nd: "\<not> game_done gm" and dr: "draw (game_dealer gm) = Some (Inr (drawn_id, dl))"
    and len: "length (counts gm) = 52"
  shows "\<exists>gm'. step gm action = Some (Inr gm') \<and>
           score gm' = score gm + (if action = drawn_id mod 52 then 1 else 0) \<and>
           counts gm' = (counts gm)[nat (drawn_id mod 52) := counts gm ! nat (drawn_id mod 52) + 1] \<and>
           game_t gm' = game_t gm + 1 \<and> last_drawn_id gm' = Some drawn_id \<and>
           drawn_ids gm' = drawn_ids gm @ [drawn_id] \<and> game_dealer gm' = dl \<and>
           (game_done gm' \<longleftrightarrow> game_t gm' \<ge> game_n gm)"
proof -
  let ?ty = "drawn_id mod 52"
  have ty: "0 \<le> ?ty" "?ty < int (length (counts gm))" using len by simp_all
  have g1: "py_get (counts gm) ?ty = Inr (counts gm ! nat ?ty)" by (rule py_get_nat[OF ty])
  have g2: "\<And>v. py_set (counts gm) ?ty v = Inr ((counts gm)[nat ?ty := v])"
    by (rule py_set_nat[OF ty])
  show ?thesis
    unfolding step_def NUM_TYPES_def Let_def using nd dr g1 g2 by simp
qed

text \<open>
  C2. In id mode the legal actions are the card ids \<open>0, \<dots>, n - 1\<close>, but \<open>step\<close> still
  compares the action with the drawn id modulo 52: with \<open>n = 104\<close>, guessing id 60 when the
  dealer draws id 60 does not score.
\<close>

theorem step_id_mode_exact_guess_not_scored:
  "\<exists>gm gm'. init_game FisherYatesDealer 104 ''id'' 64 (const_rng 60) = Inr gm \<and>
      60 \<in> set (get_legal_actions gm) \<and> step gm 60 = Some (Inr gm') \<and>
      last_drawn_id gm' = Some 60 \<and> score gm = 0 \<and> score gm' = 0"
proof -
  let ?s = "fisher_yates_reset 104 (const_rng 60)"
  let ?gm = "\<lparr>game_n = 104, action_mode = ''id'', game_dealer = FisherYates ?s, game_t = 0,
               counts = replicate (nat NUM_TYPES) 0, score = 0, drawn_ids = [],
               last_drawn_id = None, game_done = False\<rparr>"
  have i: "init_game FisherYatesDealer 104 ''id'' 64 (const_rng 60) = Inr ?gm"
    by (simp add: init_game_def)
  have u: "uniform_int (const_rng 60) 0 103 = Inr (60, \<lambda>i. const_rng 60 (Suc i))"
    by (simp add: uniform_int_def const_rng_def)
  have g1: "py_get (py_range 104) 60 = Inr 60" by (simp add: py_get_nat)
  have g2: "py_get (py_range 104) 103 = Inr 103" by (simp add: py_get_nat)
  have g3: "py_set (py_range 104) 60 103 = Inr ((py_range 104)[60 := 103])"
    by (simp add: py_set_nat)
  obtain dl where d: "draw (game_dealer ?gm) = Some (Inr (60, dl))"
    by (simp add: fisher_yates_draw_def fisher_yates_reset_def check_exhausted_def u g1 g2 g3)
  have nd: "\<not> game_done ?gm" and len: "length (counts ?gm) = 52"
    by (simp_all add: NUM_TYPES_def)
  obtain gm' where s: "step ?gm 60 = Some (Inr gm')"
    and sc: "score gm' = score ?gm + (if (60::int) = 60 mod 52 then 1 else 0)"
    and ld: "last_drawn_id gm' = Some 60"
    using step_effect[OF nd d len, of 60] by blast
  have la: "60 \<in> set (get_legal_actions ?gm)" by (simp add: get_legal_actions_def)
  have sc0: "score ?gm = 0" by simp
  have sc1: "score gm' = 0" using sc by simp
  show ?thesis
    by (rule exI[of _ ?gm], rule exI[of _ gm']) (intro conjI i la s ld sc0 sc1)
qed

section \<open>AdaptiveThresholdDealer: the first draw\<close>

lemma adaptive_reset_fields:
  "dealer_n (adaptive_reset k g p) = k" "num_drawn (adaptive_reset k g p) = 0"
  "ad_t (adaptive_reset k g p) = 0" "phase (adaptive_reset k g p) = AdaptivePhase"
  "np_random (adaptive_reset k g p) = g"
  "ell (adaptive_reset k g p) = replicate (nat (ad_d (adaptive_reset k g p))) 0"
  by (simp_all add: adaptive_reset_def Let_def)

lemma current_threshold_div:
  assumes "1 \<le> ad_d s"
  shows "current_threshold s = Inr (if ad_t s = 0 then 1 else - ((- ad_t s) div ad_d s) + 1)"
  using assms unfolding current_threshold_def by (simp add: ceiling_divide_eq_div)

lemma adaptive_104:
  "ad_d (adaptive_reset 104 g (Some 64)) = 8"
  "sizes (adaptive_reset 104 g (Some 64)) = [13, 13, 13, 13, 13, 13, 13, 13]"
  "starts (adaptive_reset 104 g (Some 64)) = [0, 13, 26, 39, 52, 65, 78, 91]"
proof -
  have d: "adaptive_d 104 64 = 8" by (simp add: adaptive_d_def)
  have n: "[0..<8] = [0, 1, 2, 3, 4, 5, 6, 7::nat]" by (simp add: upt_rec)
  have f: "foldl (partition_step 13 0) ([], [], 0) (py_range 8) =
      (map (deck_size 13 0) [0..<nat 8], map (deck_start 13 0) [0..<nat 8], deck_start 13 0 (nat 8))"
    unfolding py_range_def by (rule partition_fold) simp
  show "ad_d (adaptive_reset 104 g (Some 64)) = 8" by (simp add: adaptive_reset_def Let_def d)
  show "sizes (adaptive_reset 104 g (Some 64)) = [13, 13, 13, 13, 13, 13, 13, 13]"
    by (simp add: adaptive_reset_def Let_def d f) (simp add: n deck_size_def)
  show "starts (adaptive_reset 104 g (Some 64)) = [0, 13, 26, 39, 52, 65, 78, 91]"
    by (simp add: adaptive_reset_def Let_def d f) (simp add: n deck_start_def)
qed


lemma adaptive_first_draw:
  assumes big: "1 \<le> k - 2 * ad_d (adaptive_reset k g p)"
  shows "\<exists>c s'. adaptive_draw (adaptive_reset k g p) = Some (Inr (c, s')) \<and>
           c \<in> set (starts (adaptive_reset k g p))"
proof -
  let ?s0 = "adaptive_reset k g p"
  let ?d = "ad_d ?s0"
  have d1: "1 \<le> ?d" by (simp add: adaptive_reset_def Let_def adaptive_d_bounds)
  have k0: "0 \<le> k" using big d1 by linarith
  have inv: "adaptive_inv k [] ?s0" by (rule adaptive_reset_inv[OF k0])
  note F = adaptive_reset_fields[of k g p]
  note B = adaptive_inv_baseD[OF inv]
  note P = partition_okD[OF B(3)]
  have q2: "2 \<le> k div ?d"
  proof -
    have "(2 * ?d) div ?d \<le> k div ?d" by (rule zdiv_mono1) (use big d1 in linarith)+
    then show ?thesis using d1 by simp
  qed
  let ?s1 = "?s0\<lparr>ad_t := ad_t ?s0 + 1\<rparr>"
  have mid: "adaptive_mid k [] ?s1" by (rule adaptive_mid_start[OF inv F(4)])
  have ce: "\<not> check_exhausted ?s0" using big d1 by (simp add: check_exhausted_def F)
  have nt: "\<not> ad_t ?s1 > dealer_n ?s1 - 2 * ad_d ?s1" using big by (simp add: F)
  have m1: "(- 1) div ?d = - 1" using d1 by (simp add: zdiv_eq_0_iff div_eq_minus1)
  have th: "current_threshold ?s1 = Inr 2"
    using current_threshold_div[of ?s1] d1 m1 by (simp add: F)
  have dr: "adaptive_draw ?s0 = adaptive_loop 2 ?s1"
    using ce nt th by (simp add: adaptive_draw_def draw_adaptive_def Let_def F)
  obtain i g' where u: "uniform_int (np_random ?s1) 0 (ad_d ?s1 - 1) = Inr (i, g')"
    using uniform_int_ok[of 0 "ad_d ?s1 - 1" "np_random ?s1"] d1 by auto
  have i: "0 \<le> i" "i < ?d" using uniform_int_range[OF u] by auto
  have j: "nat i < nat ?d" using i by simp
  have e0: "ell ?s0 ! nat i = 0" unfolding F(6) using j by simp
  have sz: "2 \<le> sizes ?s0 ! nat i"
    using B(3) j q2 unfolding partition_ok_def by (meson order_trans)
  let ?sg = "?s1\<lparr>np_random := g'\<rparr>"
  have po1: "partition_ok k ?s1" using B(3) partition_ok_cong[of ?s1 ?s0 k] by simp
  have "is_drawable ?s1 2 i = Inr (ell ?s1 ! nat i < 2 \<and> ell ?s1 ! nat i < sizes ?s1 ! nat i)"
    by (rule is_drawable_in_range[OF po1]) (use i in simp_all)
  then have isd: "is_drawable ?s1 2 i = Inr True" using e0 sz by simp
  have u': "uniform_int (np_random ?s0) 0 (?d - 1) = Inr (i, g')" using u by simp
  have lp: "adaptive_loop 2 ?s1 = Some (adaptive_accept ?sg i)"
    by (subst adaptive_loop.simps) (simp add: u' isd)
  have midg: "adaptive_mid k [] ?sg" by (rule adaptive_mid_rng[OF mid])
  have ig: "i < ad_d ?sg" "ell ?sg ! nat i < sizes ?sg ! nat i" using i e0 sz by simp_all
  obtain s' where a: "adaptive_accept ?sg i = Inr (starts ?sg ! nat i + ell ?sg ! nat i, s')"
    using adaptive_accept_step[OF midg i(1) ig] by auto
  have c: "starts ?sg ! nat i + ell ?sg ! nat i = starts ?s0 ! nat i" using e0 by simp
  have mem: "starts ?s0 ! nat i \<in> set (starts ?s0)" using j P(3) by simp
  have res: "adaptive_draw ?s0 = Some (Inr (starts ?s0 ! nat i, s'))"
    unfolding dr lp a c ..
  show ?thesis by (rule exI[of _ "starts ?s0 ! nat i"], rule exI[of _ s']) (intro conjI res mem)
qed


text \<open>
  C5 (as amended). When the adaptive phase is not empty, that is \<open>n - 2d \<ge> 1\<close>, the first
  \<open>draw\<close> after \<open>reset\<close> returns, and the id it returns is one of the mini-deck tops
  \<open>starts[i]\<close>, whatever the random source. For \<open>n = 104\<close> and \<open>m_bits = 64\<close>:
  \<open>d = 8\<close>, every mini-deck has 13 cards and \<open>starts = [0, 13, 26, 39, 52, 65, 78, 91]\<close>.
\<close>

theorem adaptive_first_draw_in_tops:
  "(1 \<le> k - 2 * ad_d (adaptive_reset k g p) \<longrightarrow>
      (\<exists>c s'. adaptive_draw (adaptive_reset k g p) = Some (Inr (c, s')) \<and>
         c \<in> set (starts (adaptive_reset k g p)))) \<and>
   ad_d (adaptive_reset 104 g (Some 64)) = 8 \<and>
   sizes (adaptive_reset 104 g (Some 64)) = [13, 13, 13, 13, 13, 13, 13, 13] \<and>
   starts (adaptive_reset 104 g (Some 64)) = [0, 13, 26, 39, 52, 65, 78, 91]"
  using adaptive_first_draw[of k g p] adaptive_104[of g] by blast

theorem adaptive_first_draw_in_tops_witness:
  "1 \<le> (104::int) - 2 * ad_d (adaptive_reset 104 (const_rng 3) (Some 64)) \<and>
   (\<exists>c s'. adaptive_draw (adaptive_reset 104 (const_rng 3) (Some 64)) = Some (Inr (c, s')) \<and>
      c \<in> {0, 13, 26, 39, 52, 65, 78, 91})"
proof -
  note T = adaptive_first_draw_in_tops[of 104 "const_rng 3" "Some 64"]
  have d: "ad_d (adaptive_reset 104 (const_rng 3) (Some 64)) = 8"
    by (rule conjunct1[OF conjunct2[OF T]])
  have st: "starts (adaptive_reset 104 (const_rng 3) (Some 64)) = [0, 13, 26, 39, 52, 65, 78, 91]"
    by (rule conjunct2[OF conjunct2[OF conjunct2[OF T]]])
  have big: "1 \<le> (104::int) - 2 * ad_d (adaptive_reset 104 (const_rng 3) (Some 64))"
    unfolding d by simp
  have "\<exists>c s'. adaptive_draw (adaptive_reset 104 (const_rng 3) (Some 64)) = Some (Inr (c, s')) \<and>
      c \<in> set (starts (adaptive_reset 104 (const_rng 3) (Some 64)))"
    by (rule mp[OF conjunct1[OF T] big])
  then have "\<exists>c s'. adaptive_draw (adaptive_reset 104 (const_rng 3) (Some 64)) = Some (Inr (c, s')) \<and>
      c \<in> {0, 13, 26, 39, 52, 65, 78, 91}"
    unfolding st by simp
  then show ?thesis using big by (rule_tac conjI)
qed

text \<open>
  C5 as stated fails when the adaptive phase is empty: for \<open>n = 2\<close> (so \<open>d = 1\<close>,
  \<open>starts = [0]\<close>) the first draw is already a final-phase draw and returns id 1 when the
  source yields 1.
\<close>

theorem adaptive_first_draw_outside_tops:
  "map_option (map_sum id fst) (adaptive_draw (adaptive_reset 2 (const_rng 1) None)) = Some (Inr 1)
   \<and> starts (adaptive_reset 2 (const_rng 1) None) = [0]"
  by code_simp

section \<open>AdaptiveThresholdDealer: the rejection loop\<close>

text \<open>Some mini-deck is below both bounds as long as the counters sum to less than both totals.\<close>

lemma exists_below_bounds:
  fixes es szs :: "int list"
  assumes le: "length es = length szs"
    and q: "\<forall>i<length szs. q \<le> szs ! i \<and> szs ! i \<le> q + 1"
    and s1: "sum_list es < sum_list szs" and s2: "sum_list es < int (length szs) * thr"
  shows "\<exists>i<length szs. es ! i < thr \<and> es ! i < szs ! i"
proof (rule ccontr)
  assume "\<not> ?thesis"
  then have no: "\<And>i. i < length szs \<Longrightarrow> thr \<le> es ! i \<or> szs ! i \<le> es ! i" by force
  have se: "sum_list es = (\<Sum>i<length szs. es ! i)"
    using le by (simp add: sum_list_sum_nth atLeast0LessThan)
  have ss: "sum_list szs = (\<Sum>i<length szs. szs ! i)"
    by (simp add: sum_list_sum_nth atLeast0LessThan)
  show False
  proof (cases "thr \<le> q")
    case True
    have "\<And>i. i < length szs \<Longrightarrow> thr \<le> es ! i"
    proof -
      fix i assume i: "i < length szs"
      have "thr \<le> szs ! i" using q i True by force
      then show "thr \<le> es ! i" using no[OF i] by linarith
    qed
    then have "(\<Sum>i<length szs. thr) \<le> (\<Sum>i<length szs. es ! i)"
      by (intro sum_mono) simp
    then show False using s2 se by simp
  next
    case False
    have "\<And>i. i < length szs \<Longrightarrow> szs ! i \<le> es ! i"
    proof -
      fix i assume i: "i < length szs"
      have "szs ! i \<le> thr" using q i False by force
      then show "szs ! i \<le> es ! i" using no[OF i] by linarith
    qed
    then have "(\<Sum>i<length szs. szs ! i) \<le> (\<Sum>i<length szs. es ! i)"
      by (intro sum_mono) simp
    then show False using s1 se ss by simp
  qed
qed

lemma ceil_div_bound:
  assumes "1 \<le> (d::int)"
  shows "t \<le> d * (- ((- t) div d))"
proof -
  have a: "d * ((- t) div d) + (- t) mod d = - t" by (rule mult_div_mod_eq)
  have b: "0 \<le> (- t) mod d" using assms by simp
  have "d * ((- t) div d) \<le> - t" using a b by linarith
  then show ?thesis by (simp add: algebra_simps)
qed

lemma uniform_int_zero:
  "1 \<le> d \<Longrightarrow> uniform_int g 0 (d - 1) = Inr (int (g 0) mod d, \<lambda>i. g (Suc i))"
  by (simp add: uniform_int_def)

lemma is_drawable_rng [simp]: "is_drawable (s\<lparr>np_random := g\<rparr>) thr i = is_drawable s thr i"
  by (simp add: is_drawable_def cong: sum.case_cong if_cong)

lemma adaptive_drawable_exists:
  assumes mid: "adaptive_mid k outs s" and lt: "num_drawn s < k"
    and th: "current_threshold s = Inr thr"
  shows "\<exists>i. 0 \<le> i \<and> i < ad_d s \<and> ell s ! nat i < thr \<and> ell s ! nat i < sizes s ! nat i"
proof -
  note D = adaptive_midD[OF mid]
  note P = partition_okD[OF D(4)]
  have t1: "ad_t s \<noteq> 0" using D(3,5) by simp
  have thr: "thr = - ((- ad_t s) div ad_d s) + 1"
    using th current_threshold_div[OF P(1)] t1 by simp
  have q: "\<forall>i<length (sizes s). k div ad_d s \<le> sizes s ! i \<and> sizes s ! i \<le> k div ad_d s + 1"
    using D(4) unfolding partition_ok_def by simp
  have s1: "sum_list (ell s) < sum_list (sizes s)" using D(6) P(5) lt by simp
  have "ad_t s \<le> ad_d s * (- ((- ad_t s) div ad_d s))" by (rule ceil_div_bound[OF P(1)])
  then have "ad_t s + ad_d s \<le> ad_d s * thr" unfolding thr by (simp add: algebra_simps)
  then have s2: "sum_list (ell s) < int (length (sizes s)) * thr"
    using D(5,6) P(1,2) by simp
  have le: "length (ell s) = length (sizes s)" using P by simp
  obtain j where j: "j < length (sizes s)" "ell s ! j < thr" "ell s ! j < sizes s ! j"
    using exists_below_bounds[OF le q s1 s2] by blast
  have "0 \<le> int j \<and> int j < ad_d s \<and> ell s ! nat (int j) < thr \<and>
        ell s ! nat (int j) < sizes s ! nat (int j)"
    using j P by simp
  then show ?thesis by (rule exI[of _ "int j"])
qed

lemma adaptive_loop_returns:
  assumes po: "partition_ok k s"
    and hit: "is_drawable s thr (int (np_random s j) mod ad_d s) = Inr True"
  shows "\<exists>y. adaptive_loop thr s = Some y"
  using assms
proof (induction j arbitrary: s)
  case 0
  note P = partition_okD[OF 0(1)]
  show ?case
    by (subst adaptive_loop.simps) (simp add: uniform_int_zero[OF P(1)] 0(2))
next
  case (Suc j)
  note P = partition_okD[OF Suc(2)]
  let ?i = "int (np_random s 0) mod ad_d s"
  let ?g = "\<lambda>i. np_random s (Suc i)"
  have i: "0 \<le> ?i" "?i < ad_d s" using P(1) by simp_all
  note dr = is_drawable_in_range[OF Suc(2) i, of thr]
  show ?case
  proof (cases "ell s ! nat ?i < thr \<and> ell s ! nat ?i < sizes s ! nat ?i")
    case True
    then have "is_drawable s thr ?i = Inr True" using dr by simp
    then show ?thesis
      by (subst adaptive_loop.simps) (simp add: uniform_int_zero[OF P(1)])
  next
    case False
    then have f: "is_drawable s thr ?i = Inr False" using dr by simp
    have po': "partition_ok k (s\<lparr>np_random := ?g\<rparr>)"
      using Suc(2) partition_ok_cong[of "s\<lparr>np_random := ?g\<rparr>" s k] by simp
    have hit': "is_drawable (s\<lparr>np_random := ?g\<rparr>) thr
        (int (np_random (s\<lparr>np_random := ?g\<rparr>) j) mod ad_d (s\<lparr>np_random := ?g\<rparr>)) = Inr True"
      using Suc(3) by simp
    obtain y where y: "adaptive_loop thr (s\<lparr>np_random := ?g\<rparr>) = Some y"
      using Suc.IH[OF po' hit'] by blast
    have "adaptive_loop thr s = Some y"
      by (subst adaptive_loop.simps) (simp add: uniform_int_zero[OF P(1)] f y)
    then show ?thesis by (rule exI)
  qed
qed

text \<open>A source that only ever yields rejected indices keeps the loop running for ever.\<close>

lemma adaptive_loop_stuck_aux:
  assumes run: "adaptive_loop thr0 s0 = Some y0"
  shows "\<not> (1 \<le> ad_d s0 \<and> (\<forall>j. is_drawable s0 thr0 (int (np_random s0 j) mod ad_d s0) = Inr False))"
proof (rule adaptive_loop.raw_induct[where P = "\<lambda>thr s y.
    \<not> (1 \<le> ad_d s \<and> (\<forall>j. is_drawable s thr (int (np_random s j) mod ad_d s) = Inr False))", OF _ run])
  fix f :: "int \<Rightarrow> adaptive \<Rightarrow> (error + (int \<times> adaptive)) option" and thr s y
  assume ih: "\<And>thr x y. f thr x = Some y \<Longrightarrow>
    \<not> (1 \<le> ad_d x \<and> (\<forall>j. is_drawable x thr (int (np_random x j) mod ad_d x) = Inr False))"
  assume step: "(case uniform_int (np_random s) 0 (ad_d s - 1) of
        Inl e \<Rightarrow> Some (Inl e)
      | Inr (i, g) \<Rightarrow>
          (case is_drawable s thr i of
             Inl e \<Rightarrow> Some (Inl e)
           | Inr b \<Rightarrow>
               if b then Some (adaptive_accept (s\<lparr>np_random := g\<rparr>) i)
               else f thr (s\<lparr>np_random := g\<rparr>))) = Some y"
  show "\<not> (1 \<le> ad_d s \<and> (\<forall>j. is_drawable s thr (int (np_random s j) mod ad_d s) = Inr False))"
  proof
    assume a: "1 \<le> ad_d s \<and> (\<forall>j. is_drawable s thr (int (np_random s j) mod ad_d s) = Inr False)"
    then have d1: "1 \<le> ad_d s"
      and st: "\<And>j. is_drawable s thr (int (np_random s j) mod ad_d s) = Inr False" by simp_all
    let ?g = "\<lambda>i. np_random s (Suc i)"
    have r: "f thr (s\<lparr>np_random := ?g\<rparr>) = Some y"
      using step by (simp add: uniform_int_zero[OF d1] st[of 0])
    have "1 \<le> ad_d (s\<lparr>np_random := ?g\<rparr>) \<and>
      (\<forall>j. is_drawable (s\<lparr>np_random := ?g\<rparr>) thr
         (int (np_random (s\<lparr>np_random := ?g\<rparr>) j) mod ad_d (s\<lparr>np_random := ?g\<rparr>)) = Inr False)"
      using d1 st by simp
    then show False using ih[OF r] by simp
  qed
qed

lemma adaptive_loop_stuck:
  assumes "1 \<le> ad_d s" "\<And>j. is_drawable s thr (int (np_random s j) mod ad_d s) = Inr False"
  shows "adaptive_loop thr s = None"
proof (cases "adaptive_loop thr s")
  case None
  then show ?thesis .
next
  case (Some y)
  then show ?thesis using adaptive_loop_stuck_aux[OF Some] assms by simp
qed

lemma const_rng_shift [simp]: "(\<lambda>i. const_rng v (Suc i)) = const_rng v"
  by (simp add: const_rng_def)

lemma uniform_int_const:
  "0 \<le> hi \<Longrightarrow> uniform_int (const_rng v) 0 hi = Inr (int v mod (hi + 1), const_rng v)"
  by (simp add: uniform_int_def) (simp add: const_rng_def)

lemma draws_Suc_Inr:
  assumes "draws (Suc j) s = Some (Inr (xs, s''))"
  shows "\<exists>x s' xs'. draw s = Some (Inr (x, s')) \<and> draws j s' = Some (Inr (xs', s'')) \<and> xs = x # xs'"
  using assms by (auto split: option.splits sum.splits)

lemma draws_Suc_error: "draw s = Some (Inl e) \<Longrightarrow> draws (Suc j) s = Some (Inl e)"
  by simp

lemma lift_draw_Inr:
  assumes "lift_draw C r = Some (Inr (x, d))"
  shows "\<exists>s. r = Some (Inr (x, s)) \<and> d = C s"
proof (cases r)
  case None
  then show ?thesis using assms by simp
next
  case (Some y)
  show ?thesis
  proof (cases y)
    case (Inl e)
    then show ?thesis using assms Some by simp
  next
    case (Inr p)
    then show ?thesis using assms Some by (cases p) simp
  qed
qed

lemma draws_adaptive_inv:
  "draws j (Adaptive s0) = Some (Inr (xs, dl)) \<Longrightarrow> adaptive_inv k outs s0 \<Longrightarrow>
     \<exists>s. dl = Adaptive s \<and> adaptive_inv k (outs @ xs) s"
proof (induction j arbitrary: s0 outs xs)
  case 0
  then show ?case by auto
next
  case (Suc j)
  obtain x d1 xs' where d: "draw (Adaptive s0) = Some (Inr (x, d1))"
    and r: "draws j d1 = Some (Inr (xs', dl))" and xs: "xs = x # xs'"
    using draws_Suc_Inr[OF Suc(2)] by blast
  obtain s1 where ad: "adaptive_draw s0 = Some (Inr (x, s1))" and d1: "d1 = Adaptive s1"
    using lift_draw_Inr[of Adaptive "adaptive_draw s0" x d1] d by auto
  have lt: "num_drawn s0 < k"
  proof (rule ccontr)
    assume "\<not> num_drawn s0 < k"
    then have "check_exhausted s0"
      using adaptive_inv_baseD(1)[OF Suc(3)] by (simp add: check_exhausted_def)
    then show False using ad by (simp add: adaptive_draw_def)
  qed
  have inv1: "adaptive_inv k (outs @ [x]) s1"
    using adaptive_draw_step[OF Suc(3) lt ad] by simp
  show ?case using Suc.IH[OF r[unfolded d1] inv1] xs by simp
qed

lemma adaptive_rejection:
  assumes inv: "adaptive_inv k outs s" and ph: "phase s = AdaptivePhase"
    and lt: "num_drawn s < k"
  shows "\<exists>ds. get_drawable_indices (s\<lparr>ad_t := ad_t s + 1\<rparr>) = Inr ds \<and> ds \<noteq> [] \<and>
          ((\<exists>m. int (np_random s m) mod ad_d s \<in> set ds) \<longrightarrow>
           (\<exists>c s'. adaptive_draw s = Some (Inr (c, s'))))"
proof -
  let ?s1 = "s\<lparr>ad_t := ad_t s + 1\<rparr>"
  note B = adaptive_inv_baseD[OF inv]
  have mid: "adaptive_mid k outs ?s1" by (rule adaptive_mid_start[OF inv ph])
  note D = adaptive_midD[OF mid]
  note P = partition_okD[OF D(4)]
  obtain thr where th: "current_threshold ?s1 = Inr thr"
    using current_threshold_ok[OF P(1)] by blast
  let ?p = "\<lambda>i. ell ?s1 ! nat i < thr \<and> ell ?s1 ! nat i < sizes ?s1 ! nat i"
  let ?ds = "filter ?p (py_range (ad_d ?s1))"
  have "\<And>i. i \<in> set (py_range (ad_d ?s1)) \<Longrightarrow> is_drawable ?s1 thr i = Inr (?p i)"
    by (rule is_drawable_in_range[OF D(4)]) simp_all
  then have "filterE (is_drawable ?s1 thr) (py_range (ad_d ?s1)) = Inr ?ds"
    by (rule filterE_all_ok)
  then have gd: "get_drawable_indices ?s1 = Inr ?ds"
    unfolding get_drawable_indices_def th by simp
  have lt1: "num_drawn ?s1 < k" using lt by simp
  obtain i where i: "0 \<le> i" "i < ad_d ?s1" "?p i"
    using adaptive_drawable_exists[OF mid lt1 th] by blast
  then have "i \<in> set ?ds" by simp
  then have ne: "?ds \<noteq> []" by (metis empty_iff empty_set)
  have ret: "(\<exists>m. int (np_random s m) mod ad_d s \<in> set ?ds) \<longrightarrow>
           (\<exists>c s'. adaptive_draw s = Some (Inr (c, s')))"
  proof
    assume "\<exists>m. int (np_random s m) mod ad_d s \<in> set ?ds"
    then obtain m where m: "int (np_random s m) mod ad_d s \<in> set ?ds" ..
    let ?i = "int (np_random s m) mod ad_d s"
    have im: "0 \<le> ?i" "?i < ad_d ?s1" "?p ?i" using m by simp_all
    have "is_drawable ?s1 thr ?i = Inr (?p ?i)"
      by (rule is_drawable_in_range[OF D(4) im(1,2)])
    then have hit: "is_drawable ?s1 thr (int (np_random ?s1 m) mod ad_d ?s1) = Inr True"
      using im(3) by simp
    have ce: "\<not> check_exhausted s" using lt B(1) by (simp add: check_exhausted_def)
    have "\<exists>y. adaptive_draw s = Some y"
    proof (cases "ad_t ?s1 > dealer_n ?s1 - 2 * ad_d ?s1")
      case True
      then show ?thesis using ce ph
        by (cases "transition_to_final ?s1") (simp_all add: adaptive_draw_def draw_adaptive_def Let_def)
    next
      case False
      obtain y where "adaptive_loop thr ?s1 = Some y"
        using adaptive_loop_returns[OF D(4) hit] by blast
      then show ?thesis using ce ph False th
        by (simp add: adaptive_draw_def draw_adaptive_def Let_def)
    qed
    then obtain y where y: "adaptive_draw s = Some y" ..
    then show "\<exists>c s'. adaptive_draw s = Some (Inr (c, s'))"
      using adaptive_draw_step[OF inv lt y] by blast
  qed
  show ?thesis by (rule exI[of _ ?ds]) (intro conjI gd ne ret)
qed

lemma adaptive_reachable_inv:
  assumes reach: "draws j (Adaptive (adaptive_reset k g p)) = Some (Inr (outs, Adaptive s))"
    and lt: "num_drawn s < dealer_n s"
  shows "adaptive_inv k outs s"
proof (cases "0 \<le> k")
  case True
  show ?thesis
    using draws_adaptive_inv[OF reach adaptive_reset_inv[OF True]] by simp
next
  case False
  let ?s0 = "adaptive_reset k g p"
  have "check_exhausted ?s0" using False by (simp add: check_exhausted_def adaptive_reset_fields)
  then have e: "draw (Adaptive ?s0) = Some (Inl Exhausted)" by (simp add: adaptive_draw_def)
  have "j = 0"
  proof (cases j)
    case 0
    then show ?thesis .
  next
    case (Suc j')
    then show ?thesis using reach draws_Suc_error[OF e, of j'] by simp
  qed
  then have "s = ?s0" using reach by simp
  then show ?thesis using lt False by (simp add: adaptive_reset_fields)
qed

lemma stuck_reset: "adaptive_reset 8 (const_rng 0) (Some 16) = stuck_state 0 [0, 0]"
proof -
  have d: "adaptive_d 8 16 = 2" by (simp add: adaptive_d_def)
  have n: "[0..<2] = [0, 1::nat]" by (simp add: upt_rec)
  have f: "foldl (partition_step 4 0) ([], [], 0) (py_range 2) = ([4, 4], [0, 4], 8)"
    unfolding py_range_def by (simp add: n partition_step_def)
  show ?thesis by (simp add: adaptive_reset_def Let_def d f stuck_state_def numeral_2_eq_2)
qed

lemma stuck_accept:
  assumes "0 \<le> t" "t < 4" "e < - ((- (t + 1)) div 2) + 1" "e < 4"
  shows "adaptive_draw (stuck_state t [e, 0]) = Some (Inr (e, stuck_state (t + 1) [e + 1, 0]))"
proof -
  let ?s = "stuck_state t [e, 0]"
  let ?s1 = "?s\<lparr>ad_t := ad_t ?s + 1\<rparr>"
  have t0: "0 \<le> t" using assms by simp
  have th: "current_threshold ?s1 = Inr (- ((- (t + 1)) div 2) + 1)"
    using current_threshold_div[of ?s1] t0 by (simp add: stuck_state_def)
  let ?thr = "- ((- (t + 1)) div 2) + 1"
  have nr: "np_random ?s1 = const_rng 0" "ad_d ?s1 = 2" by (simp_all add: stuck_state_def)
  have u: "uniform_int (const_rng 0) 0 (2 - 1) = Inr (0, const_rng 0)"
    by (simp add: uniform_int_const)
  have isd: "is_drawable ?s1 ?thr 0 = Inr True"
    using assms by (simp add: is_drawable_def py_get_def py_index_def stuck_state_def)
  have acc: "adaptive_accept (?s1\<lparr>np_random := const_rng 0\<rparr>) 0
      = Inr (e, stuck_state (t + 1) [e + 1, 0])"
    by (simp add: adaptive_accept_def top_card_def py_get_def py_set_def py_index_def
        stuck_state_def)
  have lp: "adaptive_loop ?thr ?s1 = Some (Inr (e, stuck_state (t + 1) [e + 1, 0]))"
    by (subst adaptive_loop.simps) (simp only: nr u isd acc sum.case prod.case if_True)
  have ce: "\<not> check_exhausted ?s" using assms by (simp add: check_exhausted_def stuck_state_def)
  have ph: "phase ?s = AdaptivePhase" by (simp add: stuck_state_def)
  have nt: "\<not> ad_t ?s1 > dealer_n ?s1 - 2 * ad_d ?s1" using assms by (simp add: stuck_state_def)
  show ?thesis
    unfolding adaptive_draw_def draw_adaptive_def Let_def
    by (simp only: ce ph nt th lp if_False phase.case sum.case)
qed

lemma stuck_diverges: "adaptive_draw (stuck_state 3 [3, 0]) = None"
proof -
  let ?s = "stuck_state 3 [3, 0]"
  let ?s1 = "?s\<lparr>ad_t := ad_t ?s + 1\<rparr>"
  have th: "current_threshold ?s1 = Inr 3"
    using current_threshold_div[of ?s1] by (simp add: stuck_state_def)
  have r: "\<And>j. is_drawable ?s1 3 (int (np_random ?s1 j) mod ad_d ?s1) = Inr False"
    by (simp add: stuck_state_def const_rng_def is_drawable_def py_get_def py_index_def)
  have "adaptive_loop 3 ?s1 = None"
    by (rule adaptive_loop_stuck[OF _ r]) (simp add: stuck_state_def)
  then show ?thesis
    using th
    by (simp add: adaptive_draw_def draw_adaptive_def check_exhausted_def Let_def stuck_state_def)
qed

lemma stuck_draws3:
  "draws 3 (Adaptive (adaptive_reset 8 (const_rng 0) (Some 16)))
     = Some (Inr ([0, 1, 2], Adaptive (stuck_state 3 [3, 0])))"
proof -
  have a: "adaptive_draw (stuck_state 0 [0, 0]) = Some (Inr (0, stuck_state 1 [1, 0]))"
    using stuck_accept[of 0 0] by simp
  have b: "adaptive_draw (stuck_state 1 [1, 0]) = Some (Inr (1, stuck_state 2 [2, 0]))"
    using stuck_accept[of 1 1] by simp
  have c: "adaptive_draw (stuck_state 2 [2, 0]) = Some (Inr (2, stuck_state 3 [3, 0]))"
    using stuck_accept[of 2 2] by simp
  show ?thesis unfolding stuck_reset by (simp add: eval_nat_numeral a b c)
qed


text \<open>
  C8 (as amended). In every state reached by \<open>reset\<close> and draws in which the dealer is in
  its adaptive phase with \<open>num_drawn < n\<close>, the list of drawable mini-decks computed for
  the step (after \<open>t\<close> is incremented) is not empty, and \<open>draw\<close> returns an id as soon as
  the random source yields, at some position, an index of that list.
\<close>

theorem adaptive_rejection_loop:
  assumes "draws j (Adaptive (adaptive_reset k g p)) = Some (Inr (outs, Adaptive s))"
    and "phase s = AdaptivePhase" and "num_drawn s < dealer_n s"
  shows "\<exists>ds. get_drawable_indices (s\<lparr>ad_t := ad_t s + 1\<rparr>) = Inr ds \<and> ds \<noteq> [] \<and>
          ((\<exists>m. int (np_random s m) mod ad_d s \<in> set ds) \<longrightarrow>
           (\<exists>c s'. adaptive_draw s = Some (Inr (c, s'))))"
proof -
  have inv: "adaptive_inv k outs s" by (rule adaptive_reachable_inv[OF assms(1,3)])
  have lt: "num_drawn s < k" using assms(3) adaptive_inv_baseD(1)[OF inv] by simp
  show ?thesis by (rule adaptive_rejection[OF inv assms(2) lt])
qed

theorem adaptive_rejection_loop_witness:
  "draws 0 (Adaptive (adaptive_reset 8 (const_rng 0) (Some 16)))
     = Some (Inr ([], Adaptive (stuck_state 0 [0, 0]))) \<and>
   phase (stuck_state 0 [0, 0]) = AdaptivePhase \<and>
   num_drawn (stuck_state 0 [0, 0]) < dealer_n (stuck_state 0 [0, 0]) \<and>
   get_drawable_indices (stuck_state 0 [0, 0]\<lparr>ad_t := ad_t (stuck_state 0 [0, 0]) + 1\<rparr>)
     = Inr [0, 1] \<and>
   int (np_random (stuck_state 0 [0, 0]) 0) mod ad_d (stuck_state 0 [0, 0]) \<in> set [0, 1] \<and>
   (\<exists>c s'. adaptive_draw (stuck_state 0 [0, 0]) = Some (Inr (c, s')))"
proof -
  let ?s = "stuck_state 0 [0, 0]"
  have h1: "draws 0 (Adaptive (adaptive_reset 8 (const_rng 0) (Some 16)))
     = Some (Inr ([], Adaptive ?s))" by (simp add: stuck_reset)
  have h2: "phase ?s = AdaptivePhase" by (simp add: stuck_state_def)
  have h3: "num_drawn ?s < dealer_n ?s" by (simp add: stuck_state_def)
  have n: "[0..<2] = [0, 1::nat]" by (simp add: upt_rec)
  have th: "current_threshold (?s\<lparr>ad_t := ad_t ?s + 1\<rparr>) = Inr 2"
    using current_threshold_div[of "?s\<lparr>ad_t := ad_t ?s + 1\<rparr>"] by (simp add: stuck_state_def)
  have gd: "get_drawable_indices (?s\<lparr>ad_t := ad_t ?s + 1\<rparr>) = Inr [0, 1]"
    unfolding get_drawable_indices_def th
    by (simp add: py_range_def n is_drawable_def py_get_def py_index_def stuck_state_def)
  have hit: "int (np_random ?s 0) mod ad_d ?s \<in> set [0, 1]"
    by (simp add: stuck_state_def const_rng_def)
  obtain ds where a: "get_drawable_indices (?s\<lparr>ad_t := ad_t ?s + 1\<rparr>) = Inr ds"
    and b: "(\<exists>m. int (np_random ?s m) mod ad_d ?s \<in> set ds) \<longrightarrow>
           (\<exists>c s'. adaptive_draw ?s = Some (Inr (c, s')))"
    using adaptive_rejection_loop[OF h1 h2 h3] by blast
  have ds: "ds = [0, 1]" using a gd by simp
  have "\<exists>m. int (np_random ?s m) mod ad_d ?s \<in> set ds" unfolding ds using hit by (rule exI)
  then have r: "\<exists>c s'. adaptive_draw ?s = Some (Inr (c, s'))" using b by (rule rev_mp)
  show ?thesis by (intro conjI h1 h2 h3 gd hit r)
qed

text \<open>
  C8 as stated fails: the loop is not total under \<open>num_drawn < n\<close>. With \<open>n = 8\<close>,
  \<open>m_bits = 16\<close> (\<open>d = 2\<close>) and a source that always yields 0, three draws take ids 0, 1, 2
  from mini-deck 0; at the fourth draw the threshold is 3, mini-deck 0 is rejected every
  time and \<open>draw\<close> never returns, although mini-deck 1 is drawable.
\<close>

theorem adaptive_rejection_loop_diverges:
  "draws 3 (Adaptive (adaptive_reset 8 (const_rng 0) (Some 16)))
     = Some (Inr ([0, 1, 2], Adaptive (stuck_state 3 [3, 0]))) \<and>
   phase (stuck_state 3 [3, 0]) = AdaptivePhase \<and>
   num_drawn (stuck_state 3 [3, 0]) < dealer_n (stuck_state 3 [3, 0]) \<and>
   adaptive_draw (stuck_state 3 [3, 0]) = None"
  using stuck_draws3 stuck_diverges by (simp add: stuck_state_def)

section \<open>Bit masks\<close>

lemma mask_positions_rec:
  "mask_positions m pos = (if odd m then [pos] else []) @ mask_positions (m div 2) (pos + 1)"
proof (cases "m = 0")
  case True
  then show ?thesis by (simp add: mask_positions.simps[of 0])
next
  case False
  then show ?thesis
    by (subst mask_positions.simps) (simp add: and_one_eq drop_bit_eq_div mod_2_eq_odd)
qed

lemma mask_positions_0 [simp]: "mask_positions 0 pos = []"
  by (simp add: mask_positions.simps[of 0])

lemma popcount_rec: "popcount m = (if odd m then 1 else 0) + popcount (m div 2)"
  by (subst popcount.simps) (auto simp: popcount.simps[of 0] mod_2_eq_odd)

lemma popcount_positions: "popcount m = int (length (mask_positions m pos))"
proof (induction m arbitrary: pos rule: less_induct)
  case (less m)
  show ?case
  proof (cases "m = 0")
    case True
    then show ?thesis by (simp add: popcount.simps[of 0])
  next
    case False
    then have "m div 2 < m" by simp
    from less[OF this, of "pos + 1"] show ?thesis
      by (subst popcount_rec, subst mask_positions_rec) simp
  qed
qed

lemma mask_positions_mem:
  "x \<in> set (mask_positions m pos) \<Longrightarrow> pos \<le> x \<and> bit m (nat (x - pos))"
proof (induction m arbitrary: pos rule: less_induct)
  case (less m)
  show ?case
  proof (cases "m = 0")
    case True
    then show ?thesis using less(2) by simp
  next
    case False
    then have lt: "m div 2 < m" by simp
    have "x \<in> set ((if odd m then [pos] else []) @ mask_positions (m div 2) (pos + 1))"
      using less(2) by (subst (asm) mask_positions_rec)
    then consider "odd m" "x = pos" | "x \<in> set (mask_positions (m div 2) (pos + 1))"
      by (auto split: if_splits)
    then show ?thesis
    proof cases
      case 1
      then show ?thesis by (simp add: bit_0)
    next
      case 2
      from less(1)[OF lt 2] have a: "pos + 1 \<le> x" and b: "bit (m div 2) (nat (x - (pos + 1)))"
        by simp_all
      have "nat (x - pos) = Suc (nat (x - (pos + 1)))" using a by linarith
      then show ?thesis using a b by (simp add: bit_Suc)
    qed
  qed
qed

lemma bit_select_loop_rec:
  "bit_select_loop m r cnt pos =
     (if m = 0 then Inl BitSelectError
      else if odd m then (if cnt = r then Inr pos
                          else bit_select_loop (m div 2) r (cnt + 1) (pos + 1))
      else bit_select_loop (m div 2) r cnt (pos + 1))"
  by (subst bit_select_loop.simps) (simp add: and_one_eq drop_bit_eq_div mod_2_eq_odd)

lemma bit_select_loop_positions:
  "bit_select_loop m r cnt pos =
     (if cnt \<le> r \<and> nat (r - cnt) < length (mask_positions m pos)
      then Inr (mask_positions m pos ! nat (r - cnt)) else Inl BitSelectError)"
proof (induction m arbitrary: cnt pos rule: less_induct)
  case (less m)
  show ?case
  proof (cases "m = 0")
    case True
    then show ?thesis by (simp add: bit_select_loop_rec[of 0])
  next
    case False
    then have lt: "m div 2 < m" by simp
    note ih = less[OF lt]
    show ?thesis
    proof (cases "odd m")
      case True
      have mp: "mask_positions m pos = pos # mask_positions (m div 2) (pos + 1)"
        using True by (subst mask_positions_rec) simp
      show ?thesis
      proof (cases "cnt = r")
        case True
        then show ?thesis using False \<open>odd m\<close> mp by (subst bit_select_loop_rec) simp
      next
        case ne: False
        have e: "bit_select_loop m r cnt pos = bit_select_loop (m div 2) r (cnt + 1) (pos + 1)"
          using False True ne by (subst bit_select_loop_rec) simp
        show ?thesis
        proof (cases "cnt < r")
          case True
          then have n: "nat (r - cnt) = Suc (nat (r - (cnt + 1)))" by linarith
          show ?thesis unfolding e ih mp n using True by simp
        next
          case False
          then show ?thesis unfolding e ih using ne by simp
        qed
      qed
    next
      case ev: False
      have mp: "mask_positions m pos = mask_positions (m div 2) (pos + 1)"
        using ev by (subst mask_positions_rec) simp
      have e: "bit_select_loop m r cnt pos = bit_select_loop (m div 2) r cnt (pos + 1)"
        using False ev by (subst bit_select_loop_rec) simp
      show ?thesis unfolding e ih mp ..
    qed
  qed
qed

lemma bit_select_ok:
  assumes "0 \<le> r" "r < popcount m"
  shows "bit_select m r = Inr (mask_positions m 0 ! nat r)" "nat r < length (mask_positions m 0)"
  using assms unfolding bit_select_def bit_select_loop_positions popcount_positions[of m 0]
  by simp_all

lemma clear_bit_unset:
  assumes "0 \<le> b"
  shows "clear_bit m b = Inr (unset_bit (nat b) m)"
proof -
  have nb: "\<not> b < 0" using assms by simp
  have "int (unset_bit (nat b) m) = int m AND NOT (push_bit (nat b) 1)"
    unfolding of_nat_unset_bit_eq by (rule unset_bit_eq_and_not)
  then have "nat (int m AND NOT (push_bit (nat b) 1)) = unset_bit (nat b) m"
    by (metis nat_int)
  then show ?thesis
    unfolding clear_bit_def by (simp only: nb if_False)
qed

lemma unset_bit_positions:
  "bit m n \<Longrightarrow> mset (mask_positions m pos)
     = add_mset (pos + int n) (mset (mask_positions (unset_bit n m) pos))"
proof (induction n arbitrary: m pos)
  case 0
  then have o: "odd m" by (simp add: bit_0)
  have u: "unset_bit 0 m = 2 * (m div 2)" by (simp add: unset_bit_0)
  have "mask_positions (2 * (m div 2)) pos = mask_positions (m div 2) (pos + 1)"
    by (subst mask_positions_rec) simp
  then show ?case unfolding u using o by (subst mask_positions_rec) simp
next
  case (Suc n)
  then have b: "bit (m div 2) n" by (simp add: bit_Suc)
  let ?m' = "unset_bit (Suc n) m"
  have u: "?m' = m mod 2 + 2 * unset_bit n (m div 2)" by (simp add: unset_bit_Suc)
  have o: "odd ?m' = odd m" unfolding u by (simp add: mod_2_eq_odd)
  have d: "?m' div 2 = unset_bit n (m div 2)" unfolding u by simp
  have a: "mask_positions ?m' pos
      = (if odd m then [pos] else []) @ mask_positions (unset_bit n (m div 2)) (pos + 1)"
    by (subst mask_positions_rec) (simp add: o d)
  have c: "mask_positions m pos
      = (if odd m then [pos] else []) @ mask_positions (m div 2) (pos + 1)"
    by (rule mask_positions_rec)
  show ?case unfolding a c using Suc.IH[OF b, of "pos + 1"] by (simp add: add.assoc)
qed

lemma mask_positions_full:
  "mask_positions (push_bit v 1 - 1) pos = map (\<lambda>j. pos + int j) [0..<v]"
proof (induction v arbitrary: pos)
  case 0
  then show ?case by simp
next
  case (Suc v)
  have o: "odd (push_bit (Suc v) (1::nat) - 1)" by (simp add: push_bit_eq_mult)
  have d: "(push_bit (Suc v) (1::nat) - 1) div 2 = push_bit v 1 - 1"
    by (simp add: push_bit_eq_mult) 
  have "map (\<lambda>j. pos + int j) [0..<Suc v] = pos # map (\<lambda>j. pos + 1 + int j) [0..<v]"
    by (simp add: upt_conv_Cons map_Suc_upt[symmetric] del: upt_Suc)
  then show ?case
    by (subst mask_positions_rec)
       (simp only: o d Suc.IH if_True append_Cons append_Nil not_False_eq_True)
qed

section \<open>PerfectDealer\<close>

lemma weighted_sum_update:
  assumes "i < length xs"
  shows "weighted_sum (xs[i := v]) = weighted_sum xs + int i * (v - xs ! i)"
proof -
  let ?n = "length xs"
  have "map (\<lambda>p. int p * xs[i := v] ! p) [0..<?n] = (map (\<lambda>p. int p * xs ! p) [0..<?n])[i := int i * v]"
    using assms by (intro nth_equalityI) (simp_all add: nth_list_update)
  then have "weighted_sum (xs[i := v]) = sum_list ((map (\<lambda>p. int p * xs ! p) [0..<?n])[i := int i * v])"
    unfolding weighted_sum_def by simp
  also have "\<dots> = weighted_sum xs - int i * xs ! i + int i * v"
    unfolding weighted_sum_def using assms by (subst sum_list_update_int) simp_all
  finally show ?thesis by (simp add: algebra_simps)
qed

lemma weighted_sum_range:
  assumes w: "1 \<le> w" and l: "length isz = nat (w + 1)"
  shows "weighted_sum isz = (\<Sum>p\<leftarrow>py_range2 1 (w + 1). p * isz ! nat p)"
proof -
  let ?n = "nat w"
  have len: "length isz = Suc ?n" using l w by (simp add: nat_add_distrib)
  have "[0..<Suc ?n] = 0 # map Suc [0..<?n]"
    by (simp add: upt_conv_Cons map_Suc_upt del: upt_Suc)
  then have "weighted_sum isz = (\<Sum>j\<leftarrow>[0..<?n]. int (Suc j) * isz ! Suc j)"
    unfolding weighted_sum_def len by (simp add: comp_def del: upt_Suc)
  also have "\<dots> = sum_list (map (\<lambda>p. p * isz ! nat p) (py_range2 1 (w + 1)))"
    by (simp add: py_range2_def comp_def nat_add_distrib)
  finally show ?thesis .
qed

lemma population_total_ok:
  assumes w: "1 \<le> pf_w s" and l: "length (interval_size s) = nat (pf_w s + 1)"
  shows "population_total s = Inr (weighted_sum (interval_size s))"
proof -
  let ?isz = "interval_size s"
  let ?f = "\<lambda>p. case py_get ?isz p of Inl e \<Rightarrow> Inl e | Inr v \<Rightarrow> Inr (p * v)"
  have f: "\<And>p. p \<in> set (py_range2 1 (pf_w s + 1)) \<Longrightarrow> ?f p = Inr (p * ?isz ! nat p)"
  proof -
    fix p assume "p \<in> set (py_range2 1 (pf_w s + 1))"
    then have "1 \<le> p" "p < int (length ?isz)" using l w by (auto simp: py_range2_def)
    then show "?f p = Inr (p * ?isz ! nat p)" by (simp add: py_get_nat)
  qed
  have m: "mapE ?f (py_range2 1 (pf_w s + 1)) = Inr (map (\<lambda>p. p * ?isz ! nat p) (py_range2 1 (pf_w s + 1)))"
    by (rule mapE_all_ok[OF f])
  show ?thesis unfolding population_total_def m weighted_sum_range[OF w l] by simp
qed

lemma population_scan_finds:
  assumes "\<forall>p\<in>set ps. 1 \<le> p \<and> p < int (length isz) \<and> 0 \<le> isz ! nat p"
    and "cumul \<le> r" and "r < cumul + (\<Sum>p\<leftarrow>ps. p * isz ! nat p)"
  shows "\<exists>p\<in>set ps. population_scan isz r cumul ps = Inr p \<and> 0 < isz ! nat p"
  using assms
proof (induction ps arbitrary: cumul)
  case Nil
  then show ?case by simp
next
  case (Cons p ps)
  have p: "1 \<le> p" "p < int (length isz)" "0 \<le> isz ! nat p" using Cons(2) by simp_all
  have g: "py_get isz p = Inr (isz ! nat p)" using p by (simp add: py_get_nat)
  show ?case
  proof (cases "r < cumul + p * isz ! nat p")
    case True
    have "0 < p * isz ! nat p" using True Cons(3) by linarith
    then have "0 < isz ! nat p" using p by (simp add: zero_less_mult_iff)
    then show ?thesis using True g by (simp add: Let_def)
  next
    case False
    have a: "\<forall>q\<in>set ps. 1 \<le> q \<and> q < int (length isz) \<and> 0 \<le> isz ! nat q" using Cons(2) by simp
    have b: "cumul + p * isz ! nat p \<le> r" using False by simp
    have c: "r < cumul + p * isz ! nat p + (\<Sum>q\<leftarrow>ps. q * isz ! nat q)" using Cons(4) by simp
    obtain q where "q \<in> set ps"
      "population_scan isz r (cumul + p * isz ! nat p) ps = Inr q" "0 < isz ! nat q"
      using Cons.IH[OF a b c] by blast
    then show ?thesis using False g by (simp add: Let_def)
  qed
qed


lemma layout_okD:
  assumes "layout_ok s"
  shows "1 \<le> pf_w s" "length (interval_begin s) = nat (pf_w s + 1)"
    "length (interval_size s) = nat (pf_w s + 1)"
    "\<And>p. p \<le> nat (pf_w s) \<Longrightarrow> 0 \<le> interval_begin s ! p \<and> 0 \<le> interval_size s ! p \<and>
          interval_begin s ! p + interval_size s ! p \<le> int (length (cells s))"
    "\<And>p. p < nat (pf_w s) \<Longrightarrow>
          interval_begin s ! Suc p = interval_begin s ! p + interval_size s ! p"
    "\<And>p i. p \<le> nat (pf_w s) \<Longrightarrow> interval_begin s ! p \<le> int i \<Longrightarrow>
          int i < interval_begin s ! p + interval_size s ! p \<Longrightarrow>
          cell_pop (cells s ! i) = int p"
  using assms unfolding layout_ok_def by blast+

lemma perfect_sample_ok:
  assumes lo: "layout_ok s" and tot: "0 < weighted_sum (interval_size s)"
  shows "\<exists>p idx r g. perfect_sample s = Inr (p, idx, cells s ! nat idx, r, g) \<and>
           1 \<le> p \<and> p \<le> pf_w s \<and> 1 \<le> interval_size s ! nat p \<and>
           interval_begin s ! nat p \<le> idx \<and>
           idx < interval_begin s ! nat p + interval_size s ! nat p \<and>
           0 \<le> idx \<and> idx < int (length (cells s)) \<and> 0 \<le> r \<and> r < p \<and>
           cell_pop (cells s ! nat idx) = p"
proof -
  note L = layout_okD[OF lo]
  let ?isz = "interval_size s"
  let ?ps = "py_range2 1 (pf_w s + 1)"
  have pt: "population_total s = Inr (weighted_sum ?isz)" by (rule population_total_ok[OF L(1,3)])
  obtain r0 g1 where u1: "uniform_int (np_random s) 0 (weighted_sum ?isz - 1) = Inr (r0, g1)"
    using uniform_int_ok[of 0 "weighted_sum ?isz - 1" "np_random s"] tot by auto
  have r0: "0 \<le> r0" "r0 < weighted_sum ?isz" using uniform_int_range[OF u1] by auto
  have ps: "\<forall>p\<in>set ?ps. 1 \<le> p \<and> p < int (length ?isz) \<and> 0 \<le> ?isz ! nat p"
  proof
    fix p assume "p \<in> set ?ps"
    then have p: "1 \<le> p" "p \<le> pf_w s" by (auto simp: py_range2_def)
    then have "nat p \<le> nat (pf_w s)" by simp
    then have "0 \<le> ?isz ! nat p" using L(4) by blast
    then show "1 \<le> p \<and> p < int (length ?isz) \<and> 0 \<le> ?isz ! nat p" using p L(3) by simp
  qed
  have sm: "r0 < 0 + (\<Sum>p\<leftarrow>?ps. p * ?isz ! nat p)"
    using r0 weighted_sum_range[OF L(1,3)] by simp
  obtain p where pin: "p \<in> set ?ps" and sc: "population_scan ?isz r0 0 ?ps = Inr p"
    and pos: "0 < ?isz ! nat p"
    using population_scan_finds[OF ps r0(1) sm] by blast
  have p: "1 \<le> p" "p \<le> pf_w s" using pin by (auto simp: py_range2_def)
  have pn: "nat p \<le> nat (pf_w s)" using p by simp
  have pl: "p < int (length ?isz)" "p < int (length (interval_begin s))" using p L(2,3) by simp_all
  have g1: "py_get ?isz p = Inr (?isz ! nat p)" using p pl by (simp add: py_get_nat)
  have g2: "py_get (interval_begin s) p = Inr (interval_begin s ! nat p)"
    using p pl by (simp add: py_get_nat)
  obtain loc g2' where u2: "uniform_int g1 0 (?isz ! nat p - 1) = Inr (loc, g2')"
    using uniform_int_ok[of 0 "?isz ! nat p - 1" g1] pos by auto
  have loc: "0 \<le> loc" "loc < ?isz ! nat p" using uniform_int_range[OF u2] by auto
  let ?idx = "interval_begin s ! nat p + loc"
  have bd: "0 \<le> interval_begin s ! nat p"
    "interval_begin s ! nat p + ?isz ! nat p \<le> int (length (cells s))"
    using L(4)[OF pn] by simp_all
  have idx: "0 \<le> ?idx" "?idx < int (length (cells s))" using loc bd by linarith+
  have g3: "py_get (cells s) ?idx = Inr (cells s ! nat ?idx)" using idx by (simp add: py_get_nat)
  obtain r g3' where u3: "uniform_int g2' 0 (p - 1) = Inr (r, g3')"
    using uniform_int_ok[of 0 "p - 1" g2'] p by auto
  have r: "0 \<le> r" "r < p" using uniform_int_range[OF u3] by auto
  have sample: "perfect_sample s = Inr (p, ?idx, cells s ! nat ?idx, r, g3')"
    unfolding perfect_sample_def pt using tot u1 sc g1 u2 g2 g3 u3 by simp
  have "cell_pop (cells s ! nat ?idx) = int (nat p)"
    by (rule L(6)[OF pn]) (use idx loc in simp_all)
  then have pop: "cell_pop (cells s ! nat ?idx) = p" using p by simp
  have i1: "interval_begin s ! nat p \<le> ?idx" using loc by simp
  have i2: "?idx < interval_begin s ! nat p + ?isz ! nat p" using loc by simp
  have s1: "1 \<le> ?isz ! nat p" using pos by simp
  show ?thesis
    by (rule exI[of _ p], rule exI[of _ ?idx], rule exI[of _ r], rule exI[of _ g3'])
       (intro conjI sample p s1 i1 i2 idx r pop)
qed

lemma layout_step:
  assumes lo: "layout_ok s" and P: "1 \<le> P" "P \<le> nat (pf_w s)"
    and sz: "1 \<le> interval_size s ! P"
    and idx: "interval_begin s ! P \<le> int idx" "int idx < interval_begin s ! P + interval_size s ! P"
    and first: "first = nat (interval_begin s ! P)"
    and pop: "cell_pop c' = int P - 1"
    and w': "pf_w s' = pf_w s"
    and b': "interval_begin s' = (interval_begin s)[P := interval_begin s ! P + 1]"
    and s': "interval_size s' = (interval_size s)[P := interval_size s ! P - 1,
                P - 1 := interval_size s ! (P - 1) + 1]"
    and c': "cells s' = (cells s)[idx := cells s ! first, first := c']"
  shows "layout_ok s'"
proof -
  note L = layout_okD[OF lo]
  let ?W = "nat (pf_w s)"
  let ?B = "interval_begin s" and ?S = "interval_size s" and ?C = "cells s"
  have lenB: "length ?B = Suc ?W" and lenS: "length ?S = Suc ?W"
    using L(1,2,3) by (simp_all add: nat_add_distrib)
  obtain Q where Q: "P = Suc Q" using P(1) by (cases P) auto
  have QW: "Q < ?W" using P(2) Q by simp
  have adjQ: "?B ! P = ?B ! Q + ?S ! Q" using L(5)[OF QW] Q by simp
  have bP: "0 \<le> ?B ! P" "?B ! P + ?S ! P \<le> int (length ?C)" using L(4)[OF P(2)] by simp_all
  have fi: "int first = ?B ! P" using first bP by simp
  have fl: "first < length ?C" "idx < length ?C" using fi bP sz idx by linarith+
  have popfirst: "cell_pop (?C ! first) = int P"
    by (rule L(6)[OF P(2)]) (use fi sz in simp_all)
  have popidx: "cell_pop (?C ! idx) = int P"
    by (rule L(6)[OF P(2) idx])
  have Bn: "\<And>q. interval_begin s' ! q = (if q = P then ?B ! P + 1 else ?B ! q)"
    unfolding b' using P(2) lenB by (simp add: nth_list_update)
  have Sn: "\<And>q. interval_size s' ! q =
      (if q = Q then ?S ! Q + 1 else if q = P then ?S ! P - 1 else ?S ! q)"
    unfolding s' Q using QW lenS by (simp add: nth_list_update)
  have Cn: "\<And>i. cells s' ! i = (if i = first then c' else if i = idx then ?C ! first else ?C ! i)"
    unfolding c' using fl by (simp add: nth_list_update)
  show ?thesis
    unfolding layout_ok_def w'
  proof (intro conjI allI impI)
    show "1 \<le> pf_w s" by (rule L(1))
    show "length (interval_begin s') = nat (pf_w s + 1)" unfolding b' using L(2) by simp
    show "length (interval_size s') = nat (pf_w s + 1)" unfolding s' using L(3) by simp
  next
    fix q assume q: "q \<le> ?W"
    note o = L(4)[OF q]
    show "0 \<le> interval_begin s' ! q" unfolding Bn using o by auto
    show "0 \<le> interval_size s' ! q" unfolding Sn using o sz by auto
    have lc: "length (cells s') = length ?C" unfolding c' by simp
    show "interval_begin s' ! q + interval_size s' ! q \<le> int (length (cells s'))"
      unfolding Bn Sn lc using o Q adjQ bP sz by auto
  next
    fix q assume q: "q < ?W"
    show "interval_begin s' ! Suc q = interval_begin s' ! q + interval_size s' ! q"
      unfolding Bn Sn using L(5)[OF q] Q by auto
  next
    fix q i assume q: "q \<le> ?W"
      and i: "interval_begin s' ! q \<le> int i \<and> int i < interval_begin s' ! q + interval_size s' ! q"
    show "cell_pop (cells s' ! i) = int q"
    proof (cases "q = P")
      case True
      have i': "?B ! P \<le> int i" "int i < ?B ! P + ?S ! P" "i \<noteq> first"
        using i fi unfolding Bn Sn True Q by auto
      have "cell_pop (?C ! i) = int P" by (rule L(6)[OF P(2) i'(1,2)])
      then show ?thesis unfolding Cn True using i'(3) popfirst by simp
    next
      case nP: False
      show ?thesis
      proof (cases "q = Q")
        case True
        have QW': "Q \<le> ?W" using QW by simp
        show ?thesis
        proof (cases "i = first")
          case True
          then show ?thesis unfolding Cn \<open>q = Q\<close> using pop Q by simp
        next
          case False
          have i': "?B ! Q \<le> int i" "int i < ?B ! Q + ?S ! Q"
            using i fi False adjQ unfolding Bn Sn True Q by auto
          have pq: "cell_pop (?C ! i) = int Q" by (rule L(6)[OF QW' i'])
          then have "i \<noteq> idx" using popidx Q by auto
          then show ?thesis unfolding Cn True using False pq by simp
        qed
      next
        case False
        have i': "?B ! q \<le> int i" "int i < ?B ! q + ?S ! q"
          using i nP False unfolding Bn Sn by auto
        have pq: "cell_pop (?C ! i) = int q" by (rule L(6)[OF q i'])
        then have "i \<noteq> idx" "i \<noteq> first" using popidx popfirst nP by auto
        then show ?thesis unfolding Cn using pq by simp
      qed
    qed
  qed
qed

lemma sum_list_map_update:
  fixes f :: "'a \<Rightarrow> 'b::comm_monoid_add"
  shows "i < length xs \<Longrightarrow> sum_list (map f (xs[i := y])) + f (xs ! i) = sum_list (map f xs) + f y"
proof (induction xs arbitrary: i)
  case Nil
  then show ?case by simp
next
  case (Cons x xs)
  show ?case
  proof (cases i)
    case 0
    then show ?thesis by (simp add: ac_simps)
  next
    case (Suc j)
    then have "j < length xs" using Cons(2) by simp
    from Cons.IH[OF this] show ?thesis using Suc by (simp add: ac_simps)
  qed
qed

lemma perfect_pool_update:
  "i < length cs \<Longrightarrow>
     perfect_pool (cs[i := y]) + mset (cell_ids (cs ! i)) = perfect_pool cs + mset (cell_ids y)"
  unfolding perfect_pool_def by (rule sum_list_map_update)

lemma perfect_pool_perm: "mset cs = mset cs' \<Longrightarrow> perfect_pool cs = perfect_pool cs'"
proof -
  assume "mset cs = mset cs'"
  then have "sum_mset (image_mset (\<lambda>c. mset (cell_ids c)) (mset cs))
      = sum_mset (image_mset (\<lambda>c. mset (cell_ids c)) (mset cs'))" by simp
  then show ?thesis unfolding perfect_pool_def by (simp add: sum_mset_sum_list[symmetric])
qed

lemma size_perfect_pool: "int (size (perfect_pool cs)) = sum_list (map cell_pop cs)"
  by (induction cs)
     (simp_all add: perfect_pool_def cell_pop_def cell_ids_def popcount_positions[of _ 0])

lemma cell_ids_unset:
  assumes "bit (cell_mask c) n"
  shows "mset (cell_ids c)
     = add_mset (cell_base c + int n) (mset (cell_ids (c\<lparr>cell_mask := unset_bit n (cell_mask c)\<rparr>)))"
proof -
  have "mset (map (\<lambda>pos. cell_base c + pos) (mask_positions (cell_mask c) 0))
      = image_mset (\<lambda>pos. cell_base c + pos) (mset (mask_positions (cell_mask c) 0))" by simp
  also have "\<dots> = image_mset (\<lambda>pos. cell_base c + pos)
       (add_mset (0 + int n) (mset (mask_positions (unset_bit n (cell_mask c)) 0)))"
    unfolding unset_bit_positions[OF assms, of 0] ..
  finally show ?thesis by (simp add: cell_ids_def)
qed

lemma cell_pop_unset:
  assumes "bit (cell_mask c) n"
  shows "cell_pop (c\<lparr>cell_mask := unset_bit n (cell_mask c)\<rparr>) = cell_pop c - 1"
proof -
  have "size (mset (mask_positions (cell_mask c) 0))
      = size (add_mset (0 + int n) (mset (mask_positions (unset_bit n (cell_mask c)) 0)))"
    unfolding unset_bit_positions[OF assms, of 0] ..
  then show ?thesis by (simp add: cell_pop_def popcount_positions[of _ 0])
qed

lemma py_swap_nat:
  assumes "0 \<le> i" "i < int (length xs)" "0 \<le> j" "j < int (length xs)"
  shows "py_swap xs i j = Inr (xs[nat i := xs ! nat j, nat j := xs ! nat i])"
  unfolding py_swap_def using assms by (simp add: py_get_nat py_set_nat)

lemma swap_after_update:
  assumes "idx < length cs" "first < length cs"
  shows "(if idx \<noteq> first
          then (cs[idx := c'])[idx := cs[idx := c'] ! first, first := cs[idx := c'] ! idx]
          else cs[idx := c']) = cs[idx := cs ! first, first := c']"
  using assms by (auto simp: nth_list_update)

lemma swap_after_update_mset:
  assumes "idx < length cs" "first < length cs"
  shows "mset (cs[idx := cs ! first, first := c']) = mset (cs[idx := c'])"
proof (cases "idx = first")
  case True
  then show ?thesis by simp
next
  case False
  have "cs[idx := cs ! first, first := c']
      = (cs[idx := c'])[idx := cs[idx := c'] ! first, first := cs[idx := c'] ! idx]"
    using swap_after_update[OF assms, of c'] False by simp
  also have "mset \<dots> = mset (cs[idx := c'])"
    by (rule mset_swap) (use assms in simp_all)
  finally show ?thesis .
qed

lemma perfect_invD:
  assumes "perfect_inv k outs s"
  shows "dealer_n s = k" "num_drawn s = int (length outs)" "layout_ok s"
    "weighted_sum (interval_size s) = k - num_drawn s"
    "mset outs + perfect_pool (cells s) = mset (py_range k)"
  using assms unfolding perfect_inv_def by blast+

lemma decrement_ok:
  assumes p: "1 \<le> p" "p < int (length (interval_begin t))" "p < int (length (interval_size t))"
    and idx: "0 \<le> idx" "idx < int (length (cells t))"
    and first: "0 \<le> interval_begin t ! nat p" "interval_begin t ! nat p < int (length (cells t))"
  shows "decrement_cell_population t idx p =
     Inr (t\<lparr>cells := (if nat idx \<noteq> nat (interval_begin t ! nat p)
                       then (cells t)[nat idx := cells t ! nat (interval_begin t ! nat p),
                                      nat (interval_begin t ! nat p) := cells t ! nat idx]
                       else cells t),
            interval_begin := (interval_begin t)[nat p := interval_begin t ! nat p + 1],
            interval_size := (interval_size t)[nat p := interval_size t ! nat p - 1,
                 nat p - 1 := interval_size t ! (nat p - 1) + 1]\<rparr>)"
proof -
  let ?f = "interval_begin t ! nat p"
  have g1: "py_get (interval_begin t) p = Inr ?f" using p by (simp add: py_get_nat)
  have ne: "(idx \<noteq> ?f) = (nat idx \<noteq> nat ?f)" using idx first by auto
  have sw: "py_swap (cells t) idx ?f
      = Inr ((cells t)[nat idx := cells t ! nat ?f, nat ?f := cells t ! nat idx])"
    by (rule py_swap_nat[OF idx first])
  have a1: "py_add (interval_begin t) p 1 = Inr ((interval_begin t)[nat p := ?f + 1])"
    using p by (simp add: py_add_nat)
  let ?s1 = "(interval_size t)[nat p := interval_size t ! nat p - 1]"
  have a2: "py_add (interval_size t) p (- 1) = Inr ?s1" using p by (simp add: py_add_nat)
  have n1: "nat (p - 1) = nat p - 1" by simp
  have nn: "nat p - 1 \<noteq> nat p" using p by simp
  have a3: "py_add ?s1 (p - 1) 1 = Inr (?s1[nat p - 1 := interval_size t ! (nat p - 1) + 1])"
    using p nn by (simp add: py_add_nat n1 nth_list_update)
  show ?thesis
  proof (cases "idx = ?f")
    case True
    then show ?thesis
      unfolding decrement_cell_population_def Let_def using g1 a1 a2 a3 by simp
  next
    case False
    then have "nat idx \<noteq> nat ?f" using ne by simp
    then show ?thesis
      unfolding decrement_cell_population_def Let_def using False g1 sw a1 a2 a3 by simp
  qed
qed

lemma perfect_draw_step:
  assumes inv: "perfect_inv k outs s" and lt: "num_drawn s < k"
  shows "\<exists>x s'. perfect_draw s = Inr (x, s') \<and> perfect_inv k (outs @ [x]) s'"
proof -
  note I = perfect_invD[OF inv]
  note L = layout_okD[OF I(3)]
  let ?B = "interval_begin s" and ?S = "interval_size s" and ?C = "cells s"
  have tot: "0 < weighted_sum ?S" using I(4) lt by simp
  obtain p idx r g where sample: "perfect_sample s = Inr (p, idx, ?C ! nat idx, r, g)"
    and p: "1 \<le> p" "p \<le> pf_w s" and sz: "1 \<le> ?S ! nat p"
    and iv: "?B ! nat p \<le> idx" "idx < ?B ! nat p + ?S ! nat p"
    and idx: "0 \<le> idx" "idx < int (length ?C)" and r: "0 \<le> r" "r < p"
    and pop: "cell_pop (?C ! nat idx) = p"
    using perfect_sample_ok[OF I(3) tot] by blast
  let ?c = "?C ! nat idx"
  let ?P = "nat p"
  have PW: "?P \<le> nat (pf_w s)" using p by simp
  have rp: "r < popcount (cell_mask ?c)" using r pop by (simp add: cell_pop_def)
  let ?b = "mask_positions (cell_mask ?c) 0 ! nat r"
  have bs: "bit_select (cell_mask ?c) r = Inr ?b" by (rule bit_select_ok(1)[OF r(1) rp])
  have "?b \<in> set (mask_positions (cell_mask ?c) 0)"
    using bit_select_ok(2)[OF r(1) rp] by simp
  then have b: "0 \<le> ?b" "bit (cell_mask ?c) (nat ?b)" using mask_positions_mem[of ?b _ 0] by simp_all
  let ?c' = "?c\<lparr>cell_mask := unset_bit (nat ?b) (cell_mask ?c)\<rparr>"
  have cb: "clear_bit (cell_mask ?c) ?b = Inr (unset_bit (nat ?b) (cell_mask ?c))"
    by (rule clear_bit_unset[OF b(1)])
  let ?cs1 = "?C[nat idx := ?c']"
  have ps: "py_set ?C idx ?c' = Inr ?cs1" using idx by (simp add: py_set_nat)
  let ?t = "s\<lparr>np_random := g, cells := ?cs1\<rparr>"
  let ?f = "nat (?B ! ?P)"
  have bP: "0 \<le> ?B ! ?P" "?B ! ?P + ?S ! ?P \<le> int (length ?C)" using L(4)[OF PW] by simp_all
  have fl: "?B ! ?P < int (length ?C)" using bP sz by linarith
  have pl: "p < int (length ?B)" "p < int (length ?S)" using p L(1,2,3) by simp_all
  let ?cs2 = "?C[nat idx := ?C ! ?f, ?f := ?c']"
  let ?B' = "?B[?P := ?B ! ?P + 1]"
  let ?S' = "?S[?P := ?S ! ?P - 1, ?P - 1 := ?S ! (?P - 1) + 1]"
  have il: "nat idx < length ?C" "?f < length ?C" using idx fl bP by simp_all
  have idx1: "idx < int (length ?cs1)" and fl1: "?B ! ?P < int (length ?cs1)"
    using idx fl by simp_all
  have ct: "cells ?t = ?cs1" "interval_begin ?t = ?B" "interval_size ?t = ?S" by simp_all
  have dec: "decrement_cell_population ?t idx p =
      Inr (?t\<lparr>cells := ?cs2, interval_begin := ?B', interval_size := ?S'\<rparr>)"
    using decrement_ok[of p ?t idx, unfolded ct, OF p(1) pl idx(1) idx1 bP(1) fl1]
    unfolding swap_after_update[OF il] .
  let ?s' = "?t\<lparr>cells := ?cs2, interval_begin := ?B', interval_size := ?S',
                num_drawn := num_drawn s + 1\<rparr>"
  let ?x = "cell_base ?c + ?b"
  have ce: "\<not> check_exhausted s" using lt I(1) by (simp add: check_exhausted_def)
  have d: "perfect_draw s = Inr (?x, ?s')"
    unfolding perfect_draw_def Let_def using ce sample bs cb ps dec by simp
  have lo': "layout_ok ?s'"
  proof (rule layout_step[OF I(3) _ PW sz, where idx = "nat idx" and first = ?f and c' = ?c'])
    show "1 \<le> ?P" using p by simp
    show "?B ! ?P \<le> int (nat idx)" "int (nat idx) < ?B ! ?P + ?S ! ?P" using iv idx by simp_all
    show "cell_pop ?c' = int ?P - 1" using cell_pop_unset[OF b(2)] pop p by simp
  qed simp_all
  have lS: "?P < length ?S" "?P - 1 < length (?S[?P := ?S ! ?P - 1])" using pl p by simp_all
  have "weighted_sum ?S' = weighted_sum (?S[?P := ?S ! ?P - 1])
      + int (?P - 1) * (?S ! (?P - 1) + 1 - (?S[?P := ?S ! ?P - 1]) ! (?P - 1))"
    by (rule weighted_sum_update[OF lS(2)])
  also have "(?S[?P := ?S ! ?P - 1]) ! (?P - 1) = ?S ! (?P - 1)" using p by (simp add: nth_list_update)
  also have "weighted_sum (?S[?P := ?S ! ?P - 1])
      = weighted_sum ?S + int ?P * (?S ! ?P - 1 - ?S ! ?P)"
    by (rule weighted_sum_update[OF lS(1)])
  finally have ws: "weighted_sum ?S' = weighted_sum ?S - 1"
    using p by (simp add: algebra_simps of_nat_diff)
  have "perfect_pool ?cs1 + mset (cell_ids ?c) = perfect_pool ?C + mset (cell_ids ?c')"
    by (rule perfect_pool_update[OF il(1)])
  then have "add_mset ?x (perfect_pool ?cs1) + mset (cell_ids ?c')
      = perfect_pool ?C + mset (cell_ids ?c')"
    unfolding cell_ids_unset[OF b(2)] using b(1) by simp
  then have p1: "add_mset ?x (perfect_pool ?cs1) = perfect_pool ?C" by simp
  have p2: "perfect_pool ?cs2 = perfect_pool ?cs1"
    by (rule perfect_pool_perm[OF swap_after_update_mset[OF il]])
  have "mset (outs @ [?x]) + perfect_pool ?cs2 = mset outs + add_mset ?x (perfect_pool ?cs1)"
    unfolding p2 by simp
  also have "\<dots> = mset (py_range k)" unfolding p1 by (rule I(5))
  finally have pool: "mset (outs @ [?x]) + perfect_pool ?cs2 = mset (py_range k)" .
  have inv': "perfect_inv k (outs @ [?x]) ?s'"
    unfolding perfect_inv_def using I(1,2,4) lo' ws pool by simp
  show ?thesis
    by (rule exI[of _ ?x], rule exI[of _ ?s']) (rule conjI[OF d inv'])
qed

lemma cell_width_pos: "1 \<le> cell_width k"
  by (simp add: cell_width_def)

lemma ceil_div_props:
  assumes w: "1 \<le> (w::int)" and k: "0 \<le> k"
  shows "0 \<le> \<lceil>real_of_int k / real_of_int w\<rceil>" "k \<le> \<lceil>real_of_int k / real_of_int w\<rceil> * w"
    "\<And>j. j < \<lceil>real_of_int k / real_of_int w\<rceil> \<Longrightarrow> j * w < k"
proof -
  let ?c = "\<lceil>real_of_int k / real_of_int w\<rceil>"
  have c: "?c = - ((- k) div w)" by (rule ceiling_divide_eq_div)
  have a: "w * ((- k) div w) + (- k) mod w = - k" by (rule mult_div_mod_eq)
  have m: "0 \<le> (- k) mod w" "(- k) mod w < w" using w by simp_all
  have "w * ((- k) div w) \<le> - k" using a m by linarith
  then show "k \<le> ?c * w" unfolding c by (simp add: mult.commute)
  have "0 \<le> real_of_int k / real_of_int w" using k w by (intro divide_nonneg_pos) simp_all
  then show "0 \<le> ?c" by (simp add: order_less_le_trans)
  fix j assume "j < ?c"
  then have "j + 1 \<le> - ((- k) div w)" unfolding c by simp
  then have "(j + 1) * w \<le> - ((- k) div w) * w" using w by (intro mult_right_mono) simp_all
  moreover have "- ((- k) div w) * w = - (w * ((- k) div w))" by simp
  moreover have "(j + 1) * w = j * w + w" by (simp add: algebra_simps)
  ultimately show "j * w < k" using a m by linarith
qed

lemma make_cells_ok:
  assumes w: "1 \<le> w" and k: "0 \<le> k"
  shows "mapE (make_cell k w) (py_range \<lceil>real_of_int k / real_of_int w\<rceil>)
     = Inr (map (init_cell k w) [0..<nat \<lceil>real_of_int k / real_of_int w\<rceil>])"
proof -
  let ?c = "\<lceil>real_of_int k / real_of_int w\<rceil>"
  have "\<And>j. j \<in> set (py_range ?c) \<Longrightarrow> make_cell k w j = Inr (init_cell k w (nat j))"
  proof -
    fix j assume "j \<in> set (py_range ?c)"
    then have j: "0 \<le> j" "j < ?c" by simp_all
    have "j * w < k" by (rule ceil_div_props(3)[OF w k j(2)])
    then have "\<not> min w (k - j * w) < 0" using w by simp
    then show "make_cell k w j = Inr (init_cell k w (nat j))"
      unfolding make_cell_def Let_def init_cell_def using j by simp
  qed
  then have "mapE (make_cell k w) (py_range ?c) = Inr (map (\<lambda>j. init_cell k w (nat j)) (py_range ?c))"
    by (rule mapE_all_ok)
  then show ?thesis by (simp add: py_range_def comp_def)
qed

lemma init_cell_fields:
  "cell_mask (init_cell k w j) = push_bit (nat (min w (k - int j * w))) 1 - 1"
  "cell_base (init_cell k w j) = int j * w"
  by (simp_all add: init_cell_def)

lemma init_cell_ids:
  assumes "1 \<le> w" "int j * w < k"
  shows "cell_ids (init_cell k w j) = py_range2 (int j * w) (int j * w + min w (k - int j * w))"
  unfolding cell_ids_def init_cell_fields mask_positions_full py_range2_def by simp

lemma init_cell_pop:
  assumes "1 \<le> w" "int j * w < k"
  shows "cell_pop (init_cell k w j) = min w (k - int j * w)"
  unfolding cell_pop_def popcount_positions[of _ 0] init_cell_fields mask_positions_full
  using assms by simp

lemma init_pool:
  assumes w: "1 \<le> w" and k: "0 \<le> k" and m: "int m * w < k + w"
  shows "perfect_pool (map (init_cell k w) [0..<m]) = mset (py_range (min (int m * w) k))"
  using m
proof (induction m)
  case 0
  then show ?case by (simp add: perfect_pool_def py_range_def)
next
  case (Suc m)
  have lt: "int m * w < k" using Suc(2) by (simp add: algebra_simps)
  then have m': "int m * w < k + w" using w by simp
  have a: "0 \<le> int m * w" using w by simp
  have b: "0 \<le> min w (k - int m * w)" using w lt by simp
  have e: "int m * w + min w (k - int m * w) = min (int (Suc m) * w) k"
    by (simp add: algebra_simps min_def)
  have mn: "min (int m * w) k = int m * w" using lt by simp
  have "perfect_pool (map (init_cell k w) [0..<Suc m])
      = perfect_pool (map (init_cell k w) [0..<m]) + mset (cell_ids (init_cell k w m))"
    by (simp add: perfect_pool_def)
  also have "\<dots> = mset (py_range (int m * w))
      + mset (py_range2 (int m * w) (int m * w + min w (k - int m * w)))"
    unfolding Suc.IH[OF m'] mn init_cell_ids[OF w lt] ..
  also have "\<dots> = mset (py_range (int m * w + min w (k - int m * w)))"
    by (rule py_range2_split[OF a b, symmetric])
  finally show ?case unfolding e .
qed

lemma count_pops_fold:
  "(case foldl (\<lambda>m c. m(cell_pop c \<mapsto> (case m (cell_pop c) of None \<Rightarrow> 0 | Some v \<Rightarrow> v) + 1))
           m0 cs p of None \<Rightarrow> 0 | Some v \<Rightarrow> v)
     = (case m0 p of None \<Rightarrow> 0 | Some v \<Rightarrow> v) + count_eq cs p"
proof (induction cs arbitrary: m0)
  case Nil
  then show ?case by (simp add: count_eq_def)
next
  case (Cons c cs)
  show ?case
    unfolding foldl_Cons Cons.IH by (simp add: count_eq_def)
qed

lemma count_pops_eq:
  "(case count_pops cs p of None \<Rightarrow> 0 | Some v \<Rightarrow> v) = count_eq cs p"
  unfolding count_pops_def count_pops_fold by simp

lemma popcount_nonneg: "0 \<le> popcount m"
  by (simp add: popcount_positions[of m 0])

lemma count_lt_0: "count_lt cs 0 = 0"
  unfolding count_lt_def cell_pop_def
  using popcount_nonneg by (simp add: not_less)

lemma count_lt_Suc: "count_lt cs (p + 1) = count_lt cs p + count_eq cs p"
  unfolding count_lt_def count_eq_def
proof (induction cs)
  case Nil
  then show ?case by simp
next
  case (Cons c cs)
  then show ?case by auto
qed

lemma assign_fold:
  assumes "m \<le> n"
  shows "foldl (assign_step (count_pops cs)) (replicate n 0, replicate n 0, 0) (map int [0..<m])
     = (map (\<lambda>q. if q < m then count_lt cs (int q) else 0) [0..<n],
        map (\<lambda>q. if q < m then count_eq cs (int q) else 0) [0..<n],
        count_lt cs (int m))"
  using assms
proof (induction m)
  case 0
  have "replicate n (0::int) = map (\<lambda>q. 0) [0..<n]" by (simp add: map_replicate_const)
  then show ?case by (simp add: count_lt_0)
next
  case (Suc m)
  then have mn: "m < n" by simp
  have u1: "(map (\<lambda>q. if q < m then count_lt cs (int q) else 0) [0..<n])[m := count_lt cs (int m)]
      = map (\<lambda>q. if q < Suc m then count_lt cs (int q) else 0) [0..<n]"
    using mn by (intro nth_equalityI) (auto simp: nth_list_update)
  have u2: "(map (\<lambda>q. if q < m then count_eq cs (int q) else 0) [0..<n])[m := count_eq cs (int m)]
      = map (\<lambda>q. if q < Suc m then count_eq cs (int q) else 0) [0..<n]"
    using mn by (intro nth_equalityI) (auto simp: nth_list_update)
  have s: "count_lt cs (int m) + count_eq cs (int m) = count_lt cs (int (Suc m))"
    using count_lt_Suc[of cs "int m"] by (simp add: add.commute)
  have "foldl (assign_step (count_pops cs)) (replicate n 0, replicate n 0, 0) (map int [0..<Suc m])
      = assign_step (count_pops cs)
          (map (\<lambda>q. if q < m then count_lt cs (int q) else 0) [0..<n],
           map (\<lambda>q. if q < m then count_eq cs (int q) else 0) [0..<n],
           count_lt cs (int m)) (int m)"
    using Suc.IH mn by simp
  also have "\<dots> = (map (\<lambda>q. if q < Suc m then count_lt cs (int q) else 0) [0..<n],
        map (\<lambda>q. if q < Suc m then count_eq cs (int q) else 0) [0..<n],
        count_lt cs (int (Suc m)))"
    unfolding assign_step_def Let_def count_pops_eq prod.case nat_int u1 u2 s ..
  finally show ?case .
qed

lemma sorted_interval_pop:
  assumes "sorted (map cell_pop cs)"
    and "count_lt cs p \<le> int i" "int i < count_lt cs p + count_eq cs p"
  shows "cell_pop (cs ! i) = p"
  using assms
proof (induction cs arbitrary: i)
  case Nil
  then show ?case by (simp add: count_lt_def count_eq_def)
next
  case (Cons c cs)
  have srt: "sorted (map cell_pop cs)" and le: "\<And>y. y \<in> set cs \<Longrightarrow> cell_pop c \<le> cell_pop y"
    using Cons(2) by simp_all
  consider "cell_pop c < p" | "cell_pop c = p" | "p < cell_pop c" by linarith
  then show ?case
  proof cases
    case 1
    then have a: "count_lt (c # cs) p = count_lt cs p + 1" "count_eq (c # cs) p = count_eq cs p"
      by (simp_all add: count_lt_def count_eq_def)
    obtain j where j: "i = Suc j" using Cons(3) a count_lt_def by (cases i) auto
    have "cell_pop (cs ! j) = p"
      by (rule Cons.IH[OF srt]) (use Cons(3,4) a j in simp_all)
    then show ?thesis using j by simp
  next
    case 2
    have "\<forall>y\<in>set cs. \<not> cell_pop y < p"
      using le 2 by (simp add: not_less)
    then have "filter (\<lambda>y. cell_pop y < p) cs = []"
      by (simp add: filter_empty_conv)
    then have z: "count_lt cs p = 0" by (simp add: count_lt_def)
    have a: "count_lt (c # cs) p = 0" "count_eq (c # cs) p = count_eq cs p + 1"
      using 2 z by (simp_all add: count_lt_def count_eq_def)
    show ?thesis
    proof (cases i)
      case 0
      then show ?thesis using 2 by simp
    next
      case (Suc j)
      have "cell_pop (cs ! j) = p"
        by (rule Cons.IH[OF srt]) (use Cons(4) a z Suc in simp_all)
      then show ?thesis using Suc by simp
    qed
  next
    case 3
    have "\<forall>y\<in>set cs. \<not> cell_pop y < p \<and> cell_pop y \<noteq> p"
    proof
      fix y assume "y \<in> set cs"
      from le[OF this] 3 show "\<not> cell_pop y < p \<and> cell_pop y \<noteq> p" by linarith
    qed
    then have "filter (\<lambda>y. cell_pop y < p) cs = []" "filter (\<lambda>y. cell_pop y = p) cs = []"
      by (simp_all add: filter_empty_conv)
    then have "count_lt (c # cs) p = 0" "count_eq (c # cs) p = 0"
      using 3 by (simp_all add: count_lt_def count_eq_def)
    then show ?thesis using Cons(4) by simp
  qed
qed

lemma count_eq_Cons:
  "count_eq (c # cs) p = count_eq cs p + (if cell_pop c = p then 1 else 0)"
  by (simp add: count_eq_def)

lemma weighted_count_sum:
  assumes "\<forall>c\<in>set cs. 0 \<le> cell_pop c \<and> cell_pop c < int n"
  shows "(\<Sum>p\<leftarrow>[0..<n]. int p * count_eq cs (int p)) = sum_list (map cell_pop cs)"
  using assms
proof (induction cs)
  case Nil
  then show ?case by (simp add: count_eq_def)
next
  case (Cons c cs)
  have b: "0 \<le> cell_pop c" "cell_pop c < int n" using Cons(2) by simp_all
  have ih: "(\<Sum>p\<leftarrow>[0..<n]. int p * count_eq cs (int p)) = sum_list (map cell_pop cs)"
    using Cons by simp
  have "(\<Sum>p\<leftarrow>[0..<n]. int p * (if cell_pop c = int p then 1 else 0))
      = (\<Sum>p\<in>{0..<n}. if p = nat (cell_pop c) then int p else 0)"
    unfolding interv_sum_list_conv_sum_set_nat
    by (rule sum.cong) (use b in auto)
  also have "\<dots> = cell_pop c"
  proof -
    have "nat (cell_pop c) < n" using b by linarith
    then show ?thesis using b by (simp add: sum.delta)
  qed
  finally have d: "(\<Sum>p\<leftarrow>[0..<n]. int p * (if cell_pop c = int p then 1 else 0)) = cell_pop c" .
  have "(\<Sum>p\<leftarrow>[0..<n]. int p * count_eq (c # cs) (int p))
      = (\<Sum>p\<leftarrow>[0..<n]. int p * count_eq cs (int p))
        + (\<Sum>p\<leftarrow>[0..<n]. int p * (if cell_pop c = int p then 1 else 0))"
    unfolding count_eq_Cons by (simp add: sum_list_addf distrib_left)
  then show ?case using ih d by simp
qed

lemma weighted_sum_counts:
  assumes "\<forall>c\<in>set cs. 0 \<le> cell_pop c \<and> cell_pop c < int n"
  shows "weighted_sum (map (\<lambda>q. count_eq cs (int q)) [0..<n]) = sum_list (map cell_pop cs)"
proof -
  have "(\<Sum>p\<leftarrow>[0..<n]. int p * map (\<lambda>q. count_eq cs (int q)) [0..<n] ! p)
      = (\<Sum>p\<leftarrow>[0..<n]. int p * count_eq cs (int p))"
    by (rule arg_cong[where f = sum_list], rule map_cong) simp_all
  then show ?thesis unfolding weighted_sum_def using weighted_count_sum[OF assms] by simp
qed

lemma count_lt_le_length: "count_lt cs p \<le> int (length cs)"
  by (simp add: count_lt_def)

lemma count_nonneg: "0 \<le> count_lt cs p" "0 \<le> count_eq cs p"
  by (simp_all add: count_lt_def count_eq_def)

lemma perfect_reset_inv:
  assumes k: "0 \<le> k"
  shows "\<exists>s. perfect_reset k g = Inr s \<and> perfect_inv k [] s \<and> np_random s = g"
proof -
  define w where "w = cell_width k"
  define nc where "nc = \<lceil>real_of_int k / real_of_int w\<rceil>"
  define cs0 where "cs0 = map (init_cell k w) [0..<nat nc]"
  define cs where "cs = sort_key cell_pop cs0"
  define n where "n = nat (w + 1)"
  define bs where "bs = map (\<lambda>q. count_lt cs (int q)) [0..<n]"
  define szs where "szs = map (\<lambda>q. count_eq cs (int q)) [0..<n]"
  define s where "s = \<lparr>dealer_n = k, np_random = g, num_drawn = 0,
                      pf_w = w, num_cells = nc, cells = cs,
                      interval_begin = bs, interval_size = szs\<rparr>"
  have w: "1 \<le> w" unfolding w_def by (rule cell_width_pos)
  note cd = ceil_div_props[OF w k, folded nc_def]
  have mk: "mapE (make_cell k w) (py_range nc) = Inr cs0"
    unfolding nc_def cs0_def by (rule make_cells_ok[OF w k])
  have pr: "py_range (w + 1) = map int [0..<n]" by (simp add: py_range_def n_def)
  have tabs: "foldl (assign_step (count_pops cs)) (replicate n 0, replicate n 0, 0) (map int [0..<n])
      = (bs, szs, count_lt cs (int n))"
    unfolding bs_def szs_def using assign_fold[of n n cs] by simp
  have r: "perfect_reset k g = Inr s"
    unfolding perfect_reset_def Let_def w_def[symmetric] nc_def[symmetric] mk sum.case
      cs_def[symmetric] pr n_def[symmetric] tabs s_def by simp
  have ms: "mset cs = mset cs0" unfolding cs_def by simp
  have srt: "sorted (map cell_pop cs)" unfolding cs_def by simp
  have ncw: "int (nat nc) * w < k + w"
  proof -
    have "(nc - 1) * w < k" by (rule cd(3)) simp
    then show ?thesis using cd(1) by (simp add: algebra_simps)
  qed
  have "min (int (nat nc) * w) k = k" using cd(1,2) by simp
  then have pool0: "perfect_pool cs0 = mset (py_range k)"
    unfolding cs0_def using init_pool[OF w k ncw] by simp
  have pool: "perfect_pool cs = mset (py_range k)"
    using perfect_pool_perm[OF ms] pool0 by simp
  have pops0: "\<forall>c\<in>set cs0. 0 \<le> cell_pop c \<and> cell_pop c < int n"
  proof
    fix c assume "c \<in> set cs0"
    then obtain j where j: "j < nat nc" "c = init_cell k w j" unfolding cs0_def by auto
    have "int j < nc" using j(1) by simp
    then have lt: "int j * w < k" by (rule cd(3))
    show "0 \<le> cell_pop c \<and> cell_pop c < int n"
      unfolding j(2) init_cell_pop[OF w lt] n_def using w lt by simp
  qed
  have "set cs = set cs0" using ms by (rule mset_eq_setD)
  then have pops: "\<forall>c\<in>set cs. 0 \<le> cell_pop c \<and> cell_pop c < int n" using pops0 by simp
  have ws: "weighted_sum szs = k"
  proof -
    have "weighted_sum szs = sum_list (map cell_pop cs)"
      unfolding szs_def by (rule weighted_sum_counts[OF pops])
    also have "\<dots> = int (size (perfect_pool cs))" by (rule size_perfect_pool[symmetric])
    also have "\<dots> = k" unfolding pool using k by (simp add: py_range_def)
    finally show ?thesis .
  qed
  have nw: "nat w < n" "n = Suc (nat w)" using w by (simp_all add: n_def nat_add_distrib)
  have f: "pf_w s = w" "cells s = cs" "interval_begin s = bs" "interval_size s = szs"
    "dealer_n s = k" "num_drawn s = 0" "np_random s = g"
    unfolding s_def by simp_all
  have nb: "\<And>p. p \<le> nat w \<Longrightarrow> bs ! p = count_lt cs (int p)"
    and ns: "\<And>p. p \<le> nat w \<Longrightarrow> szs ! p = count_eq cs (int p)"
  proof -
    fix p assume "p \<le> nat w"
    then have pn: "p < n" using nw(1) by linarith
    show "bs ! p = count_lt cs (int p)" unfolding bs_def using pn by (simp del: upt_Suc)
    show "szs ! p = count_eq cs (int p)" unfolding szs_def using pn by (simp del: upt_Suc)
  qed
  have lo: "layout_ok s"
    unfolding layout_ok_def f
  proof (intro conjI allI impI)
    show "1 \<le> w" by (rule w)
    show "length bs = nat (w + 1)" by (simp add: bs_def n_def)
    show "length szs = nat (w + 1)" by (simp add: szs_def n_def)
  next
    fix p assume p: "p \<le> nat w"
    show "0 \<le> bs ! p" unfolding nb[OF p] by (rule count_nonneg)
    show "0 \<le> szs ! p" unfolding ns[OF p] by (rule count_nonneg)
    show "bs ! p + szs ! p \<le> int (length cs)"
      unfolding nb[OF p] ns[OF p] count_lt_Suc[symmetric] by (rule count_lt_le_length)
  next
    fix p assume p: "p < nat w"
    then have a: "p \<le> nat w" "Suc p \<le> nat w" by simp_all
    show "bs ! Suc p = bs ! p + szs ! p"
      unfolding nb[OF a(1)] nb[OF a(2)] ns[OF a(1)] using count_lt_Suc[of cs "int p"]
      by (simp add: add.commute)
  next
    fix p i assume p: "p \<le> nat w" and i: "bs ! p \<le> int i \<and> int i < bs ! p + szs ! p"
    show "cell_pop (cs ! i) = int p"
      by (rule sorted_interval_pop[OF srt]) (use i nb[OF p] ns[OF p] in simp_all)
  qed
  have "perfect_inv k [] s"
    unfolding perfect_inv_def f using lo ws pool by simp
  then show ?thesis using r f(7) by blast
qed

section \<open>The dealer contract\<close>

lemma reset_inv:
  assumes "0 \<le> k"
  shows "\<exists>d. reset cls k g mb = Inr d \<and> dealer_inv k [] d \<and>
           (loop_free d \<longleftrightarrow> cls = FisherYatesDealer \<or> cls = PerfectDealer)"
proof (cases cls)
  case BitmapDealer
  then show ?thesis using bitmap_reset_inv[of k g] by simp
next
  case FisherYatesDealer
  then show ?thesis using fisher_yates_reset_inv[OF assms, of g] by simp
next
  case AdaptiveThresholdDealer
  then show ?thesis using adaptive_reset_inv[OF assms, of g mb] by simp
next
  case PerfectDealer
  obtain s where "perfect_reset k g = Inr s" "perfect_inv k [] s"
    using perfect_reset_inv[OF assms, of g] by blast
  then show ?thesis using PerfectDealer by simp
qed

lemma dealer_inv_counts:
  assumes "dealer_inv k outs d"
  shows "total_of d = k" "drawn_of d = int (length outs)"
proof -
  have "total_of d = k \<and> drawn_of d = int (length outs)"
  proof (cases d)
    case (Bitmap s)
    then show ?thesis using assms by (simp add: bitmap_inv_def)
  next
    case (FisherYates s)
    then show ?thesis using assms by (simp add: fisher_yates_inv_def)
  next
    case (Adaptive s)
    then show ?thesis using assms adaptive_inv_baseD(1,2)[of k outs s] by simp
  next
    case (Perfect s)
    then show ?thesis using assms perfect_invD(1,2)[of k outs s] by simp
  qed
  then show "total_of d = k" "drawn_of d = int (length outs)" by simp_all
qed

lemma draw_exhausted:
  assumes "total_of d \<le> drawn_of d"
  shows "draw d = Some (Inl Exhausted)"
  using assms
  by (cases d)
     (simp_all add: bitmap_draw_def fisher_yates_draw_def adaptive_draw_def perfect_draw_def
        check_exhausted_def)

lemma draw_step:
  assumes inv: "dealer_inv k outs d" and lt: "drawn_of d < k" and run: "draw d = Some y"
  shows "\<exists>x d'. y = Inr (x, d') \<and> dealer_inv k (outs @ [x]) d' \<and> loop_free d' = loop_free d"
proof (cases d)
  case (Bitmap s)
  obtain z where z: "bitmap_draw s = Some z"
    using run Bitmap by (cases "bitmap_draw s") simp_all
  obtain c s' where "z = Inr (c, s')" "bitmap_inv k (outs @ [c]) s'"
    using bitmap_draw_step[OF _ _ z, of k outs] inv lt Bitmap by auto
  then show ?thesis using run Bitmap z by auto
next
  case (FisherYates s)
  obtain c s' where "fisher_yates_draw s = Inr (c, s')" "fisher_yates_inv k (outs @ [c]) s'"
    using fisher_yates_draw_step[of k outs s] inv lt FisherYates by auto
  then show ?thesis using run FisherYates by auto
next
  case (Adaptive s)
  obtain z where z: "adaptive_draw s = Some z"
    using run Adaptive by (cases "adaptive_draw s") simp_all
  obtain c s' where "z = Inr (c, s')" "adaptive_inv k (outs @ [c]) s'"
    using adaptive_draw_step[OF _ _ z, of k outs] inv lt Adaptive by auto
  then show ?thesis using run Adaptive z by auto
next
  case (Perfect s)
  obtain c s' where "perfect_draw s = Inr (c, s')" "perfect_inv k (outs @ [c]) s'"
    using perfect_draw_step[of k outs s] inv lt Perfect by auto
  then show ?thesis using run Perfect by auto
qed

lemma lift_draw_Some: "\<exists>y. lift_draw C (Some r) = Some y"
proof (cases r)
  case (Inl e)
  then show ?thesis by simp
next
  case (Inr p)
  then show ?thesis by (cases p) simp
qed

lemma draw_loop_free: "loop_free d \<Longrightarrow> \<exists>y. draw d = Some y"
  by (cases d) (simp_all add: lift_draw_Some)

text \<open>
  From a state that satisfies the invariant, \<open>j\<close> draws within the \<open>k\<close> cards never fail:
  they return \<open>j\<close> ids and keep the invariant, or (only with a rejection loop) do not return.
\<close>

lemma draws_inv:
  assumes "dealer_inv k outs d" "int (length outs) + int j \<le> k"
  shows "(draws j d = None \<and> \<not> loop_free d) \<or>
         (\<exists>xs d'. draws j d = Some (Inr (xs, d')) \<and> length xs = j \<and>
                   dealer_inv k (outs @ xs) d' \<and> loop_free d' = loop_free d)"
  using assms
proof (induction j arbitrary: outs d)
  case 0
  then show ?case by simp
next
  case (Suc j)
  have lt: "drawn_of d < k" using Suc(2,3) dealer_inv_counts(2)[OF Suc(2)] by simp
  show ?case
  proof (cases "draw d")
    case None
    then have "\<not> loop_free d" using draw_loop_free[of d] by auto
    then show ?thesis using None by simp
  next
    case (Some y)
    obtain x d1 where y: "y = Inr (x, d1)" and inv1: "dealer_inv k (outs @ [x]) d1"
      and lf: "loop_free d1 = loop_free d"
      using draw_step[OF Suc(2) lt Some] by blast
    have b: "int (length (outs @ [x])) + int j \<le> k" using Suc(3) by simp
    from Suc.IH[OF inv1 b] show ?thesis
    proof
      assume "draws j d1 = None \<and> \<not> loop_free d1"
      then show ?thesis using Some y lf by simp
    next
      assume "\<exists>xs d'. draws j d1 = Some (Inr (xs, d')) \<and> length xs = j \<and>
                   dealer_inv k ((outs @ [x]) @ xs) d' \<and> loop_free d' = loop_free d1"
      then obtain xs d' where r: "draws j d1 = Some (Inr (xs, d'))" "length xs = j"
        "dealer_inv k ((outs @ [x]) @ xs) d'" "loop_free d' = loop_free d1" by blast
      have "draws (Suc j) d = Some (Inr (x # xs, d'))" using Some y r(1) by simp
      moreover have "length (x # xs) = Suc j" using r(2) by simp
      moreover have "dealer_inv k (outs @ x # xs) d'" using r(3) by simp
      moreover have "loop_free d' = loop_free d" using r(4) lf by simp
      ultimately show ?thesis by blast
    qed
  qed
qed

text \<open>Any successful run of draws keeps the invariant, however long.\<close>

lemma draws_reach:
  "draws j d = Some (Inr (xs, d')) \<Longrightarrow> dealer_inv k outs d \<Longrightarrow>
     dealer_inv k (outs @ xs) d' \<and> length xs = j"
proof (induction j arbitrary: d outs xs)
  case 0
  then show ?case by auto
next
  case (Suc j)
  obtain x d1 xs' where d: "draw d = Some (Inr (x, d1))"
    and r: "draws j d1 = Some (Inr (xs', d'))" and xs: "xs = x # xs'"
    using draws_Suc_Inr[OF Suc(2)] by blast
  have lt: "drawn_of d < k"
  proof (rule ccontr)
    assume "\<not> drawn_of d < k"
    then have "total_of d \<le> drawn_of d" using dealer_inv_counts(1)[OF Suc(3)] by simp
    from draw_exhausted[OF this] d show False by simp
  qed
  have inv1: "dealer_inv k (outs @ [x]) d1"
    using draw_step[OF Suc(3) lt d] by simp
  show ?case using Suc.IH[OF r inv1] xs by simp
qed

lemma mset_full:
  assumes "mset outs + P = mset ys" "length outs = length ys"
  shows "mset outs = mset ys"
proof -
  have "size (mset outs + P) = size (mset ys)" using assms(1) by simp
  then have "size P = 0" using assms(2) by simp
  then show ?thesis using assms(1) by simp
qed

lemma dealer_inv_full:
  assumes inv: "dealer_inv k outs d" and len: "int (length outs) = k"
  shows "mset outs = mset (py_range k)"
proof -
  have l: "length outs = length (py_range k)" using len by simp
  show ?thesis
  proof (cases d)
    case (Bitmap s)
    then have b: "bitmap_inv k outs s" using inv by simp
    have ds: "distinct outs" "set outs \<subseteq> {0..<k}" using bitmap_inv_sub[OF b] by simp_all
    have "card (set outs) = card {0..<k}" using ds(1) len by (simp add: distinct_card)
    then have "set outs = {0..<k}" using ds(2) by (simp add: card_subset_eq)
    then have "set outs = set (py_range k)" by simp
    then show ?thesis using ds(1) by (simp add: set_eq_iff_mset_eq_distinct[symmetric])
  next
    case (FisherYates s)
    then have "fisher_yates_inv k outs s" using inv by simp
    then have "mset outs + mset (take (nat (fy_remaining s)) (fy_array s)) = mset (py_range k)"
      unfolding fisher_yates_inv_def by blast
    then show ?thesis using l by (rule mset_full)
  next
    case (Adaptive s)
    then have a: "adaptive_inv k outs s" using inv by simp
    show ?thesis
    proof (cases "phase s")
      case AdaptivePhase
      show ?thesis using adaptive_inv_adaptiveD(4)[OF a AdaptivePhase] l by (rule mset_full)
    next
      case FinalPhase
      show ?thesis using adaptive_inv_finalD(4)[OF a FinalPhase] l by (rule mset_full)
    qed
  next
    case (Perfect s)
    then have a: "perfect_inv k outs s" using inv by simp
    show ?thesis using perfect_invD(5)[OF a] l by (rule mset_full)
  qed
qed

section \<open>Permutation and exhaustion\<close>

text \<open>
  C4. For every dealer class and every \<open>n \<ge> 1\<close>: after \<open>reset(n, rng)\<close> and \<open>n\<close>
  successful draws the dealer has \<open>num_drawn = n\<close>, and the next \<open>draw\<close> raises the
  Exhausted error instead of returning an id.
\<close>

theorem draw_after_n_draws_exhausted:
  assumes "1 \<le> k" "reset cls k g mb = Inr d0" "draws (nat k) d0 = Some (Inr (xs, d))"
  shows "drawn_of d = k \<and> total_of d = k \<and> draw d = Some (Inl Exhausted)"
proof -
  have k: "0 \<le> k" using assms(1) by simp
  have inv: "dealer_inv k [] d0" using reset_inv[OF k, of cls g mb] assms(2) by auto
  have r: "dealer_inv k xs d" "length xs = nat k"
    using draws_reach[OF assms(3) inv] by simp_all
  have c: "total_of d = k" "drawn_of d = k"
    using dealer_inv_counts[OF r(1)] r(2) k by simp_all
  have "draw d = Some (Inl Exhausted)" by (rule draw_exhausted) (simp add: c)
  then show ?thesis using c by simp
qed

theorem draw_after_n_draws_exhausted_witness:
  "(1::int) \<le> 2 \<and>
   reset FisherYatesDealer 2 (const_rng 0) None
     = Inr (FisherYates \<lparr>dealer_n = 2, np_random = const_rng 0, num_drawn = 0,
                          fy_array = [0, 1], fy_remaining = 2\<rparr>) \<and>
   draws (nat 2) (FisherYates \<lparr>dealer_n = 2, np_random = const_rng 0, num_drawn = 0,
                          fy_array = [0, 1], fy_remaining = 2\<rparr>)
     = Some (Inr ([0, 1], FisherYates \<lparr>dealer_n = 2, np_random = const_rng 0, num_drawn = 2,
                          fy_array = [1, 1], fy_remaining = 0\<rparr>)) \<and>
   drawn_of (FisherYates \<lparr>dealer_n = 2, np_random = const_rng 0, num_drawn = 2,
                          fy_array = [1, 1], fy_remaining = 0\<rparr>) = 2 \<and>
   draw (FisherYates \<lparr>dealer_n = 2, np_random = const_rng 0, num_drawn = 2,
                          fy_array = [1, 1], fy_remaining = 0\<rparr>) = Some (Inl Exhausted)"
proof -
  let ?a = "FisherYates \<lparr>dealer_n = 2, np_random = const_rng 0, num_drawn = 0,
                          fy_array = [0, 1], fy_remaining = 2\<rparr>"
  let ?b = "FisherYates \<lparr>dealer_n = 2, np_random = const_rng 0, num_drawn = 2,
                          fy_array = [1, 1], fy_remaining = 0\<rparr>"
  have n: "[0..<2] = [0, 1::nat]" by (simp add: upt_rec)
  have h1: "(1::int) \<le> 2" by simp
  have h2: "reset FisherYatesDealer 2 (const_rng 0) None = Inr ?a"
    by (simp add: fisher_yates_reset_def py_range_def n)
  have h3: "draws (nat 2) ?a = Some (Inr ([0, 1], ?b))"
    by (simp add: numeral_2_eq_2 fisher_yates_draw_def check_exhausted_def uniform_int_const
        py_get_def py_set_def py_index_def Let_def)
  from draw_after_n_draws_exhausted[OF h1 h2 h3]
  have "drawn_of ?b = 2" "draw ?b = Some (Inl Exhausted)" by simp_all
  then show ?thesis using h1 h2 h3 by simp
qed

section \<open>Reachable states of the PerfectDealer\<close>

lemma perfect_reset_fields:
  assumes "perfect_reset k g = Inr s"
  shows "dealer_n s = k" "num_drawn s = 0"
proof -
  have "dealer_n s = k \<and> num_drawn s = 0"
    using assms unfolding perfect_reset_def Let_def
    by (cases "mapE (make_cell k (cell_width k))
                 (py_range \<lceil>real_of_int k / real_of_int (cell_width k)\<rceil>)") auto
  then show "dealer_n s = k" "num_drawn s = 0" by simp_all
qed

lemma perfect_reachable_inv:
  assumes r: "perfect_reset k g = Inr s0"
    and reach: "draws j (Perfect s0) = Some (Inr (outs, Perfect s))"
    and lt: "num_drawn s < dealer_n s"
  shows "perfect_inv k outs s"
proof (cases "0 \<le> k")
  case True
  have "perfect_inv k [] s0" using perfect_reset_inv[OF True, of g] r by auto
  then have "dealer_inv k [] (Perfect s0)" by simp
  from draws_reach[OF reach this] show ?thesis by simp
next
  case False
  note F = perfect_reset_fields[OF r]
  have "total_of (Perfect s0) \<le> drawn_of (Perfect s0)" using False F by simp
  then have e: "draw (Perfect s0) = Some (Inl Exhausted)" by (rule draw_exhausted)
  have "j = 0"
  proof (cases j)
    case 0
    then show ?thesis .
  next
    case (Suc j')
    then show ?thesis using reach draws_Suc_error[OF e, of j'] by simp
  qed
  then have "s = s0" using reach by simp
  then show ?thesis using lt False F by simp
qed

lemma perfect_inv_remaining:
  assumes inv: "perfect_inv k outs s" and k: "0 \<le> k"
  shows "population_total s = Inr (perfect_remaining s)"
    "weighted_sum (interval_size s) = perfect_remaining s"
    "(\<Sum>c\<leftarrow>cells s. popcount (cell_mask c)) = perfect_remaining s"
proof -
  note I = perfect_invD[OF inv]
  note L = layout_okD[OF I(3)]
  show w: "weighted_sum (interval_size s) = perfect_remaining s"
    using I(1,4) by (simp add: perfect_remaining_def)
  show "population_total s = Inr (perfect_remaining s)"
    using population_total_ok[OF L(1) L(3)] w by simp
  have "size (mset outs + perfect_pool (cells s)) = size (mset (py_range k))"
    using I(5) by simp
  then have sz: "length outs + size (perfect_pool (cells s)) = nat k" by simp
  have "int (size (perfect_pool (cells s))) = k - int (length outs)" using sz k by linarith
  then have "sum_list (map cell_pop (cells s)) = k - num_drawn s"
    using size_perfect_pool[of "cells s"] I(2) by simp
  moreover have "map cell_pop (cells s) = map (\<lambda>c. popcount (cell_mask c)) (cells s)"
    by (simp add: cell_pop_def)
  ultimately show "(\<Sum>c\<leftarrow>cells s. popcount (cell_mask c)) = perfect_remaining s"
    using I(1) by (simp add: perfect_remaining_def)
qed

lemma perfect3_reset: "perfect_reset 3 (const_rng 0) = Inr perfect3_start"
proof -
  have w: "cell_width 3 = 2"
    by (simp add: cell_width_def ceil_log2.simps[of 3] ceil_log2.simps[of 2] ceil_log2.simps[of "Suc 0"])
  have c: "\<lceil>real_of_int 3 / real_of_int 2\<rceil> = (2::int)" by (simp add: ceiling_divide_eq_div)
  have n: "[0..<2] = [0, 1::nat]" "[0..<3] = [0, 1, 2::nat]" by (simp_all add: upt_rec)
  have rp: "replicate 3 (0::int) = [0, 0, 0]" by (simp add: numeral_3_eq_3)
  have p: "popcount (Suc 0) = 1" "popcount 3 = 2"
    by (simp_all add: popcount.simps[of 3] popcount.simps[of 1] popcount.simps[of "Suc 0"]
        popcount.simps[of 0])
  show ?thesis
    unfolding perfect_reset_def w c Let_def
    by (simp add: py_range_def n make_cell_def cell_pop_def p rp count_pops_def assign_step_def
        perfect3_start_def)
qed

lemma perfect3_total: "population_total perfect3_start = Inr 3"
  by (simp add: population_total_def perfect3_start_def py_range2_def py_get_def py_index_def
      numeral_2_eq_2)

lemma perfect3_sample:
  "perfect_sample perfect3_start
     = Inr (1, 0, \<lparr>cell_index = 1, cell_mask = 1, cell_base = 2\<rparr>, 0, const_rng 0)"
proof -
  have sc: "population_scan (interval_size perfect3_start) 0 0 (py_range2 1 (pf_w perfect3_start + 1))
      = Inr 1"
    by (simp add: perfect3_start_def py_range2_def py_get_def py_index_def numeral_2_eq_2)
  have u: "uniform_int (const_rng 0) 0 2 = Inr (0, const_rng 0)"
    "uniform_int (const_rng 0) 0 0 = Inr (0, const_rng 0)"
    by (simp_all add: uniform_int_const)
  have f: "np_random perfect3_start = const_rng 0" by (simp add: perfect3_start_def)
  show ?thesis
    unfolding perfect_sample_def perfect3_total sum.case f
    by (simp add: u sc) (simp add: perfect3_start_def py_get_def py_index_def u)
qed

lemma perfect3_draw: "perfect_draw perfect3_start = Inr (2, perfect3_next)"
proof -
  have b: "bit_select (Suc 0) 0 = Inr 0"
    by (simp add: bit_select_def bit_select_loop.simps[of "Suc 0"])
  have c: "clear_bit (Suc 0) 0 = Inr 0" by (simp add: clear_bit_unset unset_bit_0)
  have e: "\<not> check_exhausted perfect3_start"
    by (simp add: check_exhausted_def perfect3_start_def)
  show ?thesis
    unfolding perfect_draw_def perfect3_sample
    by (simp add: e b c)
       (simp add: perfect3_start_def perfect3_next_def decrement_cell_population_def
          py_get_def py_set_def py_add_def py_index_def)
qed

lemma perfect3_draws:
  "draws 1 (Perfect perfect3_start) = Some (Inr ([2], Perfect perfect3_next))"
  by (simp add: perfect3_draw)

text \<open>
  C6. For the PerfectDealer with \<open>n \<ge> 0\<close>, in the state after \<open>reset\<close> and after every
  successful draw: the sum \<open>total\<close> that \<open>draw\<close> computes over \<open>p = 1..w\<close> of
  \<open>p * interval_size[p]\<close> equals \<open>remaining()\<close>, so does the sum over all indices of the
  table, and the popcounts of all cell masks add up to \<open>remaining()\<close>.
\<close>

theorem perfect_population_invariants:
  assumes "0 \<le> k" "perfect_reset k g = Inr s0"
    and "draws j (Perfect s0) = Some (Inr (outs, Perfect s))"
  shows "population_total s = Inr (perfect_remaining s) \<and>
         weighted_sum (interval_size s) = perfect_remaining s \<and>
         (\<Sum>c\<leftarrow>cells s. popcount (cell_mask c)) = perfect_remaining s"
proof -
  have "perfect_inv k [] s0" using perfect_reset_inv[OF assms(1), of g] assms(2) by auto
  then have "dealer_inv k [] (Perfect s0)" by simp
  from draws_reach[OF assms(3) this] have inv: "perfect_inv k outs s" by simp
  show ?thesis by (intro conjI perfect_inv_remaining[OF inv assms(1)])
qed

theorem perfect_population_invariants_witness:
  "(0::int) \<le> 3 \<and> perfect_reset 3 (const_rng 0) = Inr perfect3_start \<and>
   draws 1 (Perfect perfect3_start) = Some (Inr ([2], Perfect perfect3_next)) \<and>
   population_total perfect3_next = Inr (perfect_remaining perfect3_next) \<and>
   weighted_sum (interval_size perfect3_next) = perfect_remaining perfect3_next \<and>
   (\<Sum>c\<leftarrow>cells perfect3_next. popcount (cell_mask c)) = perfect_remaining perfect3_next \<and>
   perfect_remaining perfect3_next = 2"
proof -
  have h1: "(0::int) \<le> 3" by simp
  have r: "perfect_remaining perfect3_next = 2"
    by (simp add: perfect_remaining_def perfect3_next_def)
  from perfect_population_invariants[OF h1 perfect3_reset perfect3_draws]
  show ?thesis using h1 perfect3_reset perfect3_draws r by simp
qed

text \<open>
  C7. In any PerfectDealer state with \<open>num_drawn < n\<close> in which the sum \<open>total\<close> is 0,
  \<open>draw\<close> raises the Inconsistent error. No such state is reached by \<open>reset\<close> and draws:
  there, whenever \<open>num_drawn < n\<close>, \<open>total\<close> equals \<open>remaining()\<close>, is positive, and
  \<open>draw\<close> returns an id.
\<close>

theorem perfect_inconsistent_unreachable:
  "(num_drawn t < dealer_n t \<and> population_total t = Inr 0
      \<longrightarrow> perfect_draw t = Inl Inconsistent) \<and>
   (perfect_reset k g = Inr s0 \<and> draws j (Perfect s0) = Some (Inr (outs, Perfect s)) \<and>
    num_drawn s < dealer_n s
      \<longrightarrow> population_total s = Inr (perfect_remaining s) \<and> 0 < perfect_remaining s \<and>
          (\<exists>x s'. perfect_draw s = Inr (x, s')))"
proof (intro conjI impI)
  assume "num_drawn t < dealer_n t \<and> population_total t = Inr 0"
  then show "perfect_draw t = Inl Inconsistent"
    by (simp add: perfect_draw_def perfect_sample_def check_exhausted_def)
next
  assume a: "perfect_reset k g = Inr s0 \<and>
    draws j (Perfect s0) = Some (Inr (outs, Perfect s)) \<and> num_drawn s < dealer_n s"
  then have r: "perfect_reset k g = Inr s0"
    and d: "draws j (Perfect s0) = Some (Inr (outs, Perfect s))"
    and lt: "num_drawn s < dealer_n s" by simp_all
  have inv: "perfect_inv k outs s" by (rule perfect_reachable_inv[OF r d lt])
  note I = perfect_invD[OF inv]
  have ltk: "num_drawn s < k" using lt I(1) by simp
  have k: "0 \<le> k" using ltk I(2) by simp
  show "population_total s = Inr (perfect_remaining s)"
    by (rule perfect_inv_remaining(1)[OF inv k])
  show "0 < perfect_remaining s" using lt by (simp add: perfect_remaining_def)
  show "\<exists>x s'. perfect_draw s = Inr (x, s')"
    using perfect_draw_step[OF inv ltk] by blast
qed

theorem perfect_inconsistent_unreachable_witness:
  "num_drawn perfect3_corrupt < dealer_n perfect3_corrupt \<and>
   population_total perfect3_corrupt = Inr 0 \<and>
   perfect_draw perfect3_corrupt = Inl Inconsistent \<and>
   perfect_reset 3 (const_rng 0) = Inr perfect3_start \<and>
   draws 1 (Perfect perfect3_start) = Some (Inr ([2], Perfect perfect3_next)) \<and>
   num_drawn perfect3_next < dealer_n perfect3_next \<and>
   population_total perfect3_next = Inr (perfect_remaining perfect3_next) \<and>
   0 < perfect_remaining perfect3_next \<and>
   (\<exists>x s'. perfect_draw perfect3_next = Inr (x, s'))"
proof -
  have c1: "num_drawn perfect3_corrupt < dealer_n perfect3_corrupt"
    by (simp add: perfect3_corrupt_def perfect3_start_def)
  have c2: "population_total perfect3_corrupt = Inr 0"
    by (simp add: population_total_def perfect3_corrupt_def perfect3_start_def py_range2_def
        py_get_def py_index_def numeral_2_eq_2)
  have n1: "num_drawn perfect3_next < dealer_n perfect3_next"
    by (simp add: perfect3_next_def)
  note T = perfect_inconsistent_unreachable[of perfect3_corrupt 3 "const_rng 0" perfect3_start
      1 "[2]" perfect3_next]
  have a: "perfect_draw perfect3_corrupt = Inl Inconsistent"
    using T[THEN conjunct1] c1 c2 by simp
  have b: "population_total perfect3_next = Inr (perfect_remaining perfect3_next) \<and>
      0 < perfect_remaining perfect3_next \<and> (\<exists>x s'. perfect_draw perfect3_next = Inr (x, s'))"
    using T[THEN conjunct2] perfect3_reset perfect3_draws n1 by simp
  show ?thesis using c1 c2 a perfect3_reset perfect3_draws n1 b by simp
qed

text \<open>
  C10. In every PerfectDealer state reached by \<open>reset\<close> and draws with \<open>num_drawn < n\<close>,
  \<open>draw\<close> gets as far as the call of \<open>bit_select\<close>: the sampled \<open>bit_r\<close> satisfies
  \<open>0 \<le> bit_r < p\<close>, the selected cell's mask has popcount \<open>p\<close> (the chosen population),
  and \<open>bit_select(cell.mask, bit_r)\<close> returns a bit position, not its error.
\<close>

theorem perfect_bit_select_in_range:
  assumes "perfect_reset k g = Inr s0"
    and "draws j (Perfect s0) = Some (Inr (outs, Perfect s))"
    and "num_drawn s < dealer_n s"
  shows "\<exists>p idx c r g'. perfect_sample s = Inr (p, idx, c, r, g') \<and> 0 \<le> r \<and> r < p \<and>
           popcount (cell_mask c) = p \<and> (\<exists>pos. bit_select (cell_mask c) r = Inr pos)"
proof -
  have inv: "perfect_inv k outs s" by (rule perfect_reachable_inv[OF assms])
  note I = perfect_invD[OF inv]
  have tot: "0 < weighted_sum (interval_size s)" using I(1,4) assms(3) by simp
  obtain p idx r g' where s: "perfect_sample s = Inr (p, idx, cells s ! nat idx, r, g')"
    and r: "0 \<le> r" "r < p" and p: "cell_pop (cells s ! nat idx) = p"
    using perfect_sample_ok[OF I(3) tot] by blast
  let ?c = "cells s ! nat idx"
  have pc: "popcount (cell_mask ?c) = p" using p by (simp add: cell_pop_def)
  have "r < popcount (cell_mask ?c)" using r(2) pc by simp
  from bit_select_ok(1)[OF r(1) this]
  have "\<exists>pos. bit_select (cell_mask ?c) r = Inr pos" by blast
  then show ?thesis using s r pc by blast
qed

theorem perfect_bit_select_in_range_witness:
  "perfect_reset 3 (const_rng 0) = Inr perfect3_start \<and>
   draws 0 (Perfect perfect3_start) = Some (Inr ([], Perfect perfect3_start)) \<and>
   num_drawn perfect3_start < dealer_n perfect3_start \<and>
   (\<exists>p idx c r g'. perfect_sample perfect3_start = Inr (p, idx, c, r, g') \<and> 0 \<le> r \<and> r < p \<and>
           popcount (cell_mask c) = p \<and> (\<exists>pos. bit_select (cell_mask c) r = Inr pos))"
proof -
  have h2: "draws 0 (Perfect perfect3_start) = Some (Inr ([], Perfect perfect3_start))" by simp
  have h3: "num_drawn perfect3_start < dealer_n perfect3_start"
    by (simp add: perfect3_start_def)
  from perfect_bit_select_in_range[OF perfect3_reset h2 h3]
  show ?thesis using perfect3_reset h2 h3 by blast
qed

section \<open>The next-draw distribution\<close>

lemma dict_of_fold:
  "foldl (\<lambda>m kv. m(fst kv \<mapsto> snd kv)) m0 (map (\<lambda>i. (i, v)) ks)
     = (\<lambda>i. if i \<in> set ks then Some v else m0 i)"
proof (induction ks arbitrary: m0)
  case Nil
  then show ?case by simp
next
  case (Cons a ks)
  show ?case unfolding list.map foldl_Cons Cons.IH by auto
qed

lemma dict_of_const:
  "dict_of (map (\<lambda>i. (i, v)) ks) = (\<lambda>i. if i \<in> set ks then Some v else None)"
  unfolding dict_of_def dict_of_fold by simp

text \<open>A dictionary that maps each of \<open>m\<close> distinct keys to \<open>1 / m\<close> sums to 1.\<close>

lemma dict_uniform:
  assumes "distinct ks" "ks \<noteq> []"
  shows "finite (dom (dict_of (map (\<lambda>i. (i, 1 / real (length ks))) ks)))"
    "dict_sum (dict_of (map (\<lambda>i. (i, 1 / real (length ks))) ks)) = 1"
proof -
  let ?m = "dict_of (map (\<lambda>i. (i, 1 / real (length ks))) ks)"
  have d: "dom ?m = set ks"
  proof (rule set_eqI)
    fix x show "x \<in> dom ?m \<longleftrightarrow> x \<in> set ks"
      unfolding dict_of_const by (simp add: domIff)
  qed
  show "finite (dom ?m)" unfolding d by simp
  have "dict_sum ?m = (\<Sum>i\<in>set ks. 1 / real (length ks))"
    unfolding dict_sum_def d by (rule sum.cong) (simp_all add: dict_of_const)
  also have "\<dots> = real (card (set ks)) * (1 / real (length ks))" by simp
  also have "\<dots> = 1" using assms by (simp add: distinct_card)
  finally show "dict_sum ?m = 1" .
qed

lemma pool_distinct:
  assumes "mset outs + mset ks = mset (py_range k)"
  shows "distinct ks"
proof -
  have "mset ks + mset outs = mset (py_range k)" using assms by (simp add: add.commute)
  from sub_mset_distinct[OF this] show ?thesis by simp
qed

lemma pool_length:
  assumes "mset outs + mset ks = mset (py_range k)" "0 \<le> k"
  shows "int (length ks) = k - int (length outs)"
proof -
  have "size (mset outs + mset ks) = size (mset (py_range k))" using assms(1) by simp
  then have "length outs + length ks = nat k" by simp
  then show ?thesis using assms(2) by linarith
qed

lemma fisher_yates_peek_ok:
  assumes inv: "fisher_yates_inv k outs s"
  shows "num_drawn s = k \<Longrightarrow> fisher_yates_peek s = Inr None"
    "num_drawn s \<noteq> k \<Longrightarrow> \<exists>ks. fisher_yates_peek s
        = Inr (Some (dict_of (map (\<lambda>i. (i, 1 / real (length ks))) ks))) \<and> distinct ks \<and> ks \<noteq> []"
proof -
  let ?m = "fy_remaining s"
  have I3: "?m = k - num_drawn s" and I4: "0 \<le> ?m" and I5: "nat ?m \<le> length (fy_array s)"
    and I6: "mset outs + mset (take (nat ?m) (fy_array s)) = mset (py_range k)"
    using inv unfolding fisher_yates_inv_def by blast+
  show "num_drawn s = k \<Longrightarrow> fisher_yates_peek s = Inr None"
    using I3 by (simp add: fisher_yates_peek_def)
  assume ne: "num_drawn s \<noteq> k"
  let ?ks = "take (nat ?m) (fy_array s)"
  have m0: "?m \<noteq> 0" using ne I3 by simp
  have len: "length ?ks = nat ?m" using I5 by simp
  have "\<And>i. i \<in> set (py_range ?m) \<Longrightarrow> py_get (fy_array s) i = Inr (fy_array s ! nat i)"
  proof -
    fix i assume "i \<in> set (py_range ?m)"
    moreover have "?m \<le> int (length (fy_array s))" using I5 by linarith
    ultimately have "0 \<le> i" "i < int (length (fy_array s))" by simp_all
    then show "py_get (fy_array s) i = Inr (fy_array s ! nat i)" by (simp add: py_get_nat)
  qed
  then have "mapE (py_get (fy_array s)) (py_range ?m)
      = Inr (map (\<lambda>i. fy_array s ! nat i) (py_range ?m))" by (rule mapE_all_ok)
  moreover have "map (\<lambda>i. fy_array s ! nat i) (py_range ?m) = ?ks"
    using I5 by (intro nth_equalityI) (simp_all add: py_range_def)
  ultimately have me: "mapE (py_get (fy_array s)) (py_range ?m) = Inr ?ks" by simp
  have pr: "real_of_int ?m = real (length ?ks)" using len I4 by simp
  have pk: "fisher_yates_peek s = Inr (Some (dict_of (map (\<lambda>i. (i, 1 / real (length ?ks))) ?ks)))"
    unfolding fisher_yates_peek_def Let_def me pr[symmetric] using m0 by simp
  have "distinct ?ks" by (rule pool_distinct[OF I6])
  moreover have "?ks \<noteq> []" using len m0 I4 by auto
  ultimately show "\<exists>ks. fisher_yates_peek s
        = Inr (Some (dict_of (map (\<lambda>i. (i, 1 / real (length ks))) ks))) \<and> distinct ks \<and> ks \<noteq> []"
    using pk by blast
qed

lemma bitmap_peek_ok:
  assumes inv: "bitmap_inv k outs s" and k: "0 \<le> k"
  shows "num_drawn s = k \<Longrightarrow> bitmap_peek s = Inr None"
    "num_drawn s \<noteq> k \<Longrightarrow> \<exists>ks. bitmap_peek s
        = Inr (Some (dict_of (map (\<lambda>i. (i, 1 / real (length ks))) ks))) \<and> distinct ks \<and> ks \<noteq> []"
proof -
  have I1: "dealer_n s = k" and I2: "num_drawn s = int (length outs)"
    and I3: "length (available s) = nat k" and I4: "distinct outs"
    and I5: "set outs = {i. 0 \<le> i \<and> i < k \<and> available s ! nat i = 0}"
    using inv unfolding bitmap_inv_def by blast+
  show "num_drawn s = k \<Longrightarrow> bitmap_peek s = Inr None"
    using I1 by (simp add: bitmap_peek_def bitmap_remaining_def)
  assume ne: "num_drawn s \<noteq> k"
  let ?p = "\<lambda>i. available s ! nat i \<noteq> 0"
  let ?ks = "filter ?p (py_range k)"
  have "\<And>i. i \<in> set (py_range k) \<Longrightarrow> is_available (available s) i = Inr (?p i)"
  proof -
    fix i assume "i \<in> set (py_range k)"
    then have "0 \<le> i" "i < int (length (available s))" using I3 by simp_all
    then show "is_available (available s) i = Inr (?p i)"
      by (simp add: is_available_def py_get_nat)
  qed
  then have fe: "filterE (is_available (available s)) (py_range k) = Inr ?ks"
    by (rule filterE_all_ok)
  have dk: "distinct ?ks" by simp
  have "set ?ks = {0..<k} - set outs" unfolding I5 by auto
  moreover have "set outs \<subseteq> {0..<k}" unfolding I5 by auto
  ultimately have "card (set ?ks) = card {0..<k} - card (set outs)"
    by (simp add: card_Diff_subset)
  then have ln: "length ?ks = nat k - length outs"
    using distinct_card[OF dk] distinct_card[OF I4] by simp
  have "length outs \<le> nat k"
  proof -
    have "card (set outs) \<le> card {0..<k}"
      by (rule card_mono) (simp, simp add: I5, auto)
    then show ?thesis using distinct_card[OF I4] by simp
  qed
  then have lt: "int (length outs) < k" using ne I2 k by linarith
  have pr: "real_of_int (bitmap_remaining s) = real (length ?ks)"
    unfolding bitmap_remaining_def I1 I2 ln using lt by (simp add: of_nat_diff)
  have r0: "bitmap_remaining s \<noteq> 0" using ne I1 by (simp add: bitmap_remaining_def)
  have pk: "bitmap_peek s = Inr (Some (dict_of (map (\<lambda>i. (i, 1 / real (length ?ks))) ?ks)))"
    unfolding bitmap_peek_def Let_def I1 fe pr[symmetric] using r0 by simp
  have "?ks \<noteq> []" using ln lt by auto
  then show "\<exists>ks. bitmap_peek s
        = Inr (Some (dict_of (map (\<lambda>i. (i, 1 / real (length ks))) ks))) \<and> distinct ks \<and> ks \<noteq> []"
    using pk dk by blast
qed

lemma perfect_peek_ok:
  assumes inv: "perfect_inv k outs s" and k: "0 \<le> k"
  shows "num_drawn s = k \<Longrightarrow> perfect_peek s = Inr None"
    "num_drawn s \<noteq> k \<Longrightarrow> \<exists>ks. perfect_peek s
        = Inr (Some (dict_of (map (\<lambda>i. (i, 1 / real (length ks))) ks))) \<and> distinct ks \<and> ks \<noteq> []"
proof -
  note I = perfect_invD[OF inv]
  show "num_drawn s = k \<Longrightarrow> perfect_peek s = Inr None"
    using I(1) by (simp add: perfect_peek_def perfect_remaining_def)
  assume ne: "num_drawn s \<noteq> k"
  let ?ks = "concat (map cell_ids (cells s))"
  have "mset ?ks = perfect_pool (cells s)"
    unfolding perfect_pool_def by (simp add: mset_concat comp_def)
  then have pool: "mset outs + mset ?ks = mset (py_range k)" using I(5) by simp
  have dk: "distinct ?ks" by (rule pool_distinct[OF pool])
  have ln: "int (length ?ks) = k - int (length outs)" by (rule pool_length[OF pool k])
  have r0: "perfect_remaining s \<noteq> 0" using ne I(1) by (simp add: perfect_remaining_def)
  have pr: "real_of_int (perfect_remaining s) = real (length ?ks)"
  proof -
    have "perfect_remaining s = int (length ?ks)"
      using ln I(1,2) by (simp add: perfect_remaining_def)
    then show ?thesis by simp
  qed
  have pk: "perfect_peek s = Inr (Some (dict_of (map (\<lambda>i. (i, 1 / real (length ?ks))) ?ks)))"
    unfolding perfect_peek_def Let_def pr[symmetric] using r0 by simp
  have "?ks \<noteq> []"
  proof
    assume "?ks = []"
    then have "length ?ks = 0" by (simp only: list.size)
    then show False using ln ne I(2) by linarith
  qed
  then show "\<exists>ks. perfect_peek s
        = Inr (Some (dict_of (map (\<lambda>i. (i, 1 / real (length ks))) ks))) \<and> distinct ks \<and> ks \<noteq> []"
    using pk dk by blast
qed

lemma pool_top_distinct:
  assumes pool: "mset outs + adaptive_pool s = mset (py_range k)"
    and ij: "i < nat (ad_d s)" "j < nat (ad_d s)" "i \<noteq> j"
    and li: "ell s ! i < sizes s ! i" and lj: "ell s ! j < sizes s ! j"
  shows "starts s ! i + ell s ! i \<noteq> starts s ! j + ell s ! j"
proof
  assume eq: "starts s ! i + ell s ! i = starts s ! j + ell s ! j"
  let ?x = "starts s ! i + ell s ! i"
  let ?c = "\<lambda>a. count (mset (deck_slice s a)) ?x"
  have mem: "\<And>a. ell s ! a < sizes s ! a \<Longrightarrow> starts s ! a + ell s ! a \<in> set (deck_slice s a)"
  proof -
    fix a assume "ell s ! a < sizes s ! a"
    then have "0 < nat (starts s ! a + sizes s ! a - (starts s ! a + ell s ! a))" by simp
    then have "0 \<in> set [0..<nat (starts s ! a + sizes s ! a - (starts s ! a + ell s ! a))]"
      by simp
    then have "starts s ! a + ell s ! a + int 0 \<in> set (deck_slice s a)"
      unfolding deck_slice_def py_range2_def set_map by (rule imageI)
    then show "starts s ! a + ell s ! a \<in> set (deck_slice s a)" by simp
  qed
  have ci: "1 \<le> ?c i" using mem[OF li] by (simp add: Suc_le_eq)
  have cj: "1 \<le> ?c j" using mem[OF lj] eq by (simp add: Suc_le_eq)
  have "count (adaptive_pool s) ?x = (\<Sum>a<nat (ad_d s). ?c a)"
    unfolding adaptive_pool_def by (simp add: count_sum)
  moreover have "(\<Sum>a\<in>{i, j}. ?c a) \<le> (\<Sum>a<nat (ad_d s). ?c a)"
    by (rule sum_mono2) (use ij in simp_all)
  moreover have "(\<Sum>a\<in>{i, j}. ?c a) = ?c i + ?c j" using ij(3) by simp
  ultimately have two: "2 \<le> count (adaptive_pool s) ?x" using ci cj by linarith
  have "count (mset outs + adaptive_pool s) ?x \<le> 1"
    unfolding pool using distinct_count_atmost_1[of "py_range k"] by (simp split: if_splits)
  then show False using two by simp
qed

lemma adaptive_peek_ok:
  assumes inv: "adaptive_inv k outs s" and k: "0 \<le> k"
  shows "num_drawn s = k \<Longrightarrow> adaptive_peek s = Inr None"
    "num_drawn s \<noteq> k \<Longrightarrow> \<exists>ks. adaptive_peek s
        = Inr (Some (dict_of (map (\<lambda>i. (i, 1 / real (length ks))) ks))) \<and> distinct ks \<and> ks \<noteq> []"
proof -
  note B = adaptive_inv_baseD[OF inv]
  note P = partition_okD[OF B(3)]
  show "num_drawn s = k \<Longrightarrow> adaptive_peek s = Inr None"
    using B(1) by (simp add: adaptive_peek_def adaptive_remaining_def)
  assume ne: "num_drawn s \<noteq> k"
  have r0: "adaptive_remaining s \<noteq> 0" using ne B(1) by (simp add: adaptive_remaining_def)
  show "\<exists>ks. adaptive_peek s
        = Inr (Some (dict_of (map (\<lambda>i. (i, 1 / real (length ks))) ks))) \<and> distinct ks \<and> ks \<noteq> []"
  proof (cases "phase s")
    case FinalPhase
    note F = adaptive_inv_finalD[OF inv FinalPhase]
    let ?m = "final_remaining s"
    let ?ks = "take (nat ?m) (final_cards s)"
    have m0: "?m \<noteq> 0" using ne F(1) by simp
    have len: "length ?ks = nat ?m" using F(3) by simp
    have "\<And>i. i \<in> set (py_range ?m) \<Longrightarrow> py_get (final_cards s) i = Inr (final_cards s ! nat i)"
    proof -
      fix i assume "i \<in> set (py_range ?m)"
      moreover have "?m \<le> int (length (final_cards s))" using F(3) by linarith
      ultimately have "0 \<le> i" "i < int (length (final_cards s))" by simp_all
      then show "py_get (final_cards s) i = Inr (final_cards s ! nat i)" by (simp add: py_get_nat)
    qed
    then have "mapE (py_get (final_cards s)) (py_range ?m)
        = Inr (map (\<lambda>i. final_cards s ! nat i) (py_range ?m))" by (rule mapE_all_ok)
    moreover have "map (\<lambda>i. final_cards s ! nat i) (py_range ?m) = ?ks"
      using F(3) by (intro nth_equalityI) (simp_all add: py_range_def)
    ultimately have me: "mapE (py_get (final_cards s)) (py_range ?m) = Inr ?ks" by simp
    have pr: "real_of_int ?m = real (length ?ks)" using len F(2) by simp
    have pk: "adaptive_peek s = Inr (Some (dict_of (map (\<lambda>i. (i, 1 / real (length ?ks))) ?ks)))"
      unfolding adaptive_peek_def Let_def FinalPhase phase.case me pr[symmetric]
      using m0 r0 by simp
    have "distinct ?ks" by (rule pool_distinct[OF F(4)])
    moreover have "?ks \<noteq> []" using len m0 F(2) by auto
    ultimately show ?thesis using pk by blast
  next
    case AdaptivePhase
    note A = adaptive_inv_adaptiveD[OF inv AdaptivePhase]
    define thr where "thr = (if ad_t s = 0 then 1 else - ((- ad_t s) div ad_d s) + 1)"
    have th: "current_threshold s = Inr thr"
      unfolding thr_def by (rule current_threshold_div[OF P(1)])
    let ?p = "\<lambda>i. ell s ! nat i < thr \<and> ell s ! nat i < sizes s ! nat i"
    let ?ds = "filter ?p (py_range (ad_d s))"
    let ?top = "\<lambda>i. starts s ! nat i + ell s ! nat i"
    have "\<And>i. i \<in> set (py_range (ad_d s)) \<Longrightarrow> is_drawable s thr i = Inr (?p i)"
      by (rule is_drawable_in_range[OF B(3)]) simp_all
    then have "filterE (is_drawable s thr) (py_range (ad_d s)) = Inr ?ds"
      by (rule filterE_all_ok)
    then have gd: "get_drawable_indices s = Inr ?ds"
      unfolding get_drawable_indices_def th by simp
    have lenk: "int (length outs) \<le> k"
    proof -
      have "size (mset outs + adaptive_pool s) = size (mset (py_range k))" using A(4) by simp
      then have "length outs \<le> nat k" by simp
      then show ?thesis using k by linarith
    qed
    have lt: "num_drawn s < k" using ne B(2) lenk by simp
    have q: "\<forall>i<length (sizes s). k div ad_d s \<le> sizes s ! i \<and> sizes s ! i \<le> k div ad_d s + 1"
      using B(3) unfolding partition_ok_def by simp
    have s1: "sum_list (ell s) < sum_list (sizes s)" using A(2) P(5) lt by simp
    have t0: "0 \<le> ad_t s" using A(1) B(2) by simp
    have "ad_t s < ad_d s * thr"
    proof (cases "ad_t s = 0")
      case True
      then show ?thesis using P(1) by (simp add: thr_def)
    next
      case False
      have "ad_t s \<le> ad_d s * (- ((- ad_t s) div ad_d s))" by (rule ceil_div_bound[OF P(1)])
      then have "ad_t s + ad_d s \<le> ad_d s * thr"
        using False by (simp add: thr_def algebra_simps)
      then show ?thesis using P(1) by linarith
    qed
    then have s2: "sum_list (ell s) < int (length (sizes s)) * thr"
      using A(1,2) P(1,2) by simp
    have le: "length (ell s) = length (sizes s)" using P by simp
    obtain j where j: "j < length (sizes s)" "ell s ! j < thr" "ell s ! j < sizes s ! j"
      using exists_below_bounds[OF le q s1 s2] by blast
    have "int j \<in> set ?ds" using j P by simp
    then have ne_ds: "?ds \<noteq> []" by (metis empty_iff empty_set)
    have "\<And>i. i \<in> set ?ds \<Longrightarrow> top_card s i = Inr (?top i)"
    proof -
      fix i assume "i \<in> set ?ds"
      then have i: "0 \<le> i" "i < ad_d s" by simp_all
      have g1: "py_get (starts s) i = Inr (starts s ! nat i)"
        using i P by (simp add: py_get_nat)
      have g2: "py_get (ell s) i = Inr (ell s ! nat i)" using i P by (simp add: py_get_nat)
      show "top_card s i = Inr (?top i)" unfolding top_card_def g1 g2 by simp
    qed
    then have me: "mapE (top_card s) ?ds = Inr (map ?top ?ds)" by (rule mapE_all_ok)
    let ?ks = "map ?top ?ds"
    have pr: "real (length ?ds) = real (length ?ks)" by simp
    have pk: "adaptive_peek s = Inr (Some (dict_of (map (\<lambda>i. (i, 1 / real (length ?ks))) ?ks)))"
      unfolding adaptive_peek_def AdaptivePhase phase.case gd sum.case Let_def me pr
      using r0 ne_ds by simp
    have "inj_on ?top (set ?ds)"
    proof (rule inj_onI)
      fix a b assume a: "a \<in> set ?ds" and b: "b \<in> set ?ds" and e: "?top a = ?top b"
      have ia: "0 \<le> a" "nat a < nat (ad_d s)" "ell s ! nat a < sizes s ! nat a"
        using a by simp_all
      have ib: "0 \<le> b" "nat b < nat (ad_d s)" "ell s ! nat b < sizes s ! nat b"
        using b by simp_all
      show "a = b"
      proof (rule ccontr)
        assume "a \<noteq> b"
        then have "nat a \<noteq> nat b" using ia(1) ib(1) by simp
        from pool_top_distinct[OF A(4) ia(2) ib(2) this ia(3) ib(3)] e show False by simp
      qed
    qed
    then have dk: "distinct ?ks" by (simp add: distinct_map)
    have "?ks \<noteq> []" using ne_ds by simp
    then show ?thesis using pk dk by blast
  qed
qed

lemma dealer_peek_ok:
  assumes inv: "dealer_inv k outs d" and k: "0 \<le> k"
  shows "drawn_of d = k \<Longrightarrow> peek_next_distribution d = Inr None"
    "drawn_of d \<noteq> k \<Longrightarrow> \<exists>ks. peek_next_distribution d
        = Inr (Some (dict_of (map (\<lambda>i. (i, 1 / real (length ks))) ks))) \<and> distinct ks \<and> ks \<noteq> []"
proof -
  show "drawn_of d = k \<Longrightarrow> peek_next_distribution d = Inr None"
  proof (cases d)
    case (Bitmap s)
    assume "drawn_of d = k"
    then show ?thesis using Bitmap inv bitmap_peek_ok(1)[of k outs s] k by simp
  next
    case (FisherYates s)
    assume "drawn_of d = k"
    then show ?thesis using FisherYates inv fisher_yates_peek_ok(1)[of k outs s] by simp
  next
    case (Adaptive s)
    assume "drawn_of d = k"
    then show ?thesis using Adaptive inv adaptive_peek_ok(1)[of k outs s] k by simp
  next
    case (Perfect s)
    assume "drawn_of d = k"
    then show ?thesis using Perfect inv perfect_peek_ok(1)[of k outs s] k by simp
  qed
  show "drawn_of d \<noteq> k \<Longrightarrow> \<exists>ks. peek_next_distribution d
        = Inr (Some (dict_of (map (\<lambda>i. (i, 1 / real (length ks))) ks))) \<and> distinct ks \<and> ks \<noteq> []"
  proof (cases d)
    case (Bitmap s)
    assume "drawn_of d \<noteq> k"
    then show ?thesis using Bitmap inv bitmap_peek_ok(2)[of k outs s] k by simp
  next
    case (FisherYates s)
    assume "drawn_of d \<noteq> k"
    then show ?thesis using FisherYates inv fisher_yates_peek_ok(2)[of k outs s] by simp
  next
    case (Adaptive s)
    assume "drawn_of d \<noteq> k"
    then show ?thesis using Adaptive inv adaptive_peek_ok(2)[of k outs s] k by simp
  next
    case (Perfect s)
    assume "drawn_of d \<noteq> k"
    then show ?thesis using Perfect inv perfect_peek_ok(2)[of k outs s] k by simp
  qed
qed

text \<open>
  C3. For every dealer class, every \<open>n \<ge> 0\<close> and every state reached from \<open>reset\<close> by
  successful draws: \<open>peek_next_distribution()\<close> raises nothing; it returns \<open>None\<close> exactly
  when \<open>num_drawn = n\<close>, and otherwise a dictionary with finitely many keys whose
  probabilities sum to 1. Probabilities are exact reals here; the rounding of Python floats
  is not part of the model.
\<close>

theorem peek_next_distribution_sums_to_one:
  assumes "0 \<le> k" "reset cls k g mb = Inr d0" "draws j d0 = Some (Inr (outs, d))"
  shows "(peek_next_distribution d = Inr None \<longleftrightarrow> drawn_of d = total_of d) \<and>
         (drawn_of d \<noteq> total_of d \<longrightarrow>
            (\<exists>m. peek_next_distribution d = Inr (Some m) \<and> finite (dom m) \<and> dict_sum m = 1))"
proof -
  have inv0: "dealer_inv k [] d0" using reset_inv[OF assms(1), of cls g mb] assms(2) by auto
  have inv: "dealer_inv k outs d" using draws_reach[OF assms(3) inv0] by simp
  have t: "total_of d = k" by (rule dealer_inv_counts(1)[OF inv])
  note pk = dealer_peek_ok[OF inv assms(1)]
  have b: "drawn_of d \<noteq> total_of d \<longrightarrow>
            (\<exists>m. peek_next_distribution d = Inr (Some m) \<and> finite (dom m) \<and> dict_sum m = 1)"
  proof
    assume "drawn_of d \<noteq> total_of d"
    then have "drawn_of d \<noteq> k" using t by simp
    from pk(2)[OF this] obtain ks where ks: "peek_next_distribution d
        = Inr (Some (dict_of (map (\<lambda>i. (i, 1 / real (length ks))) ks)))" "distinct ks" "ks \<noteq> []"
      by blast
    show "\<exists>m. peek_next_distribution d = Inr (Some m) \<and> finite (dom m) \<and> dict_sum m = 1"
      using ks(1) dict_uniform[OF ks(2,3)] by blast
  qed
  have a: "peek_next_distribution d = Inr None \<longleftrightarrow> drawn_of d = total_of d"
  proof
    assume n: "peek_next_distribution d = Inr None"
    show "drawn_of d = total_of d"
    proof (rule ccontr)
      assume "drawn_of d \<noteq> total_of d"
      then show False using b n by auto
    qed
  next
    assume "drawn_of d = total_of d"
    then show "peek_next_distribution d = Inr None" using pk(1) t by simp
  qed
  show ?thesis using a b by (rule conjI)
qed

theorem peek_next_distribution_sums_to_one_witness:
  "(0::int) \<le> 8 \<and>
   reset AdaptiveThresholdDealer 8 (const_rng 0) (Some 16)
     = Inr (Adaptive (adaptive_reset 8 (const_rng 0) (Some 16))) \<and>
   draws 3 (Adaptive (adaptive_reset 8 (const_rng 0) (Some 16)))
     = Some (Inr ([0, 1, 2], Adaptive (stuck_state 3 [3, 0]))) \<and>
   drawn_of (Adaptive (stuck_state 3 [3, 0])) \<noteq> total_of (Adaptive (stuck_state 3 [3, 0])) \<and>
   peek_next_distribution (Adaptive (stuck_state 3 [3, 0])) \<noteq> Inr None \<and>
   (\<exists>m. peek_next_distribution (Adaptive (stuck_state 3 [3, 0])) = Inr (Some m) \<and>
        finite (dom m) \<and> dict_sum m = 1)"
proof -
  have h1: "(0::int) \<le> 8" by simp
  have h2: "reset AdaptiveThresholdDealer 8 (const_rng 0) (Some 16)
     = Inr (Adaptive (adaptive_reset 8 (const_rng 0) (Some 16)))" by simp
  have ne: "drawn_of (Adaptive (stuck_state 3 [3, 0])) \<noteq> total_of (Adaptive (stuck_state 3 [3, 0]))"
    by (simp add: stuck_state_def)
  note T = peek_next_distribution_sums_to_one[OF h1 h2 stuck_draws3]
  have a: "peek_next_distribution (Adaptive (stuck_state 3 [3, 0])) \<noteq> Inr None"
    using T[THEN conjunct1] ne by simp
  have b: "\<exists>m. peek_next_distribution (Adaptive (stuck_state 3 [3, 0])) = Inr (Some m) \<and>
        finite (dom m) \<and> dict_sum m = 1"
    using T[THEN conjunct2] ne by (rule mp)
  show ?thesis by (intro conjI h1 h2 stuck_draws3 ne a b)
qed

section \<open>Fair random sources\<close>

lemma fair_shift: "fair g \<Longrightarrow> fair (\<lambda>i. g (Suc i))"
proof -
  assume f: "fair g"
  show ?thesis
    unfolding fair_def
  proof (intro allI impI)
    fix md off tgt :: nat assume "tgt < md"
    then obtain m where "g (Suc off + m) mod md = tgt" using f unfolding fair_def by blast
    then show "\<exists>m. g (Suc (off + m)) mod md = tgt" by auto
  qed
qed

lemma fair_hit: "fair g \<Longrightarrow> tgt < md \<Longrightarrow> \<exists>m. g m mod md = tgt"
proof -
  assume "fair g" "tgt < md"
  then obtain m where "g (0 + m) mod md = tgt" unfolding fair_def by blast
  then show ?thesis by auto
qed

lemma fair_linear: "fair (linear_rng 1 0)"
  unfolding fair_def linear_rng_def
proof (intro allI impI)
  fix md off tgt :: nat assume t: "tgt < md"
  have "off + (md - off mod md) = md * (off div md) + md"
  proof -
    have "off = md * (off div md) + off mod md" by simp
    moreover have "off mod md \<le> md" using t by (simp add: less_imp_le)
    ultimately show ?thesis by linarith
  qed
  then have e: "off + ((md - off mod md) + tgt) = tgt + md * (off div md + 1)" by simp
  have "(tgt + md * (off div md + 1)) mod md = tgt mod md" by (rule mod_mult_self2)
  then have "(off + ((md - off mod md) + tgt)) mod md = tgt" unfolding e using t by simp
  then have "(1 * (off + ((md - off mod md) + tgt)) + 0) mod md = tgt" by simp
  then show "\<exists>m. (1 * (off + m) + 0) mod md = tgt" by (rule exI)
qed

lemma uniform_int_shift: "uniform_int g lo hi = Inr (x, g') \<Longrightarrow> g' = (\<lambda>i. g (Suc i))"
  by (simp add: uniform_int_def split: if_splits)

lemma bitmap_loop_returns:
  assumes "1 \<le> dealer_n s" "length (available s) = nat (dealer_n s)"
    and "available s ! nat (int (np_random s m) mod dealer_n s) \<noteq> 0"
  shows "\<exists>y. bitmap_loop s = Some y"
  using assms
proof (induction m arbitrary: s)
  case 0
  let ?c = "int (np_random s 0) mod dealer_n s"
  have c: "0 \<le> ?c" "?c < int (length (available s))" using 0(1,2) by simp_all
  have g1: "py_get (available s) ?c = Inr (available s ! nat ?c)" by (rule py_get_nat[OF c])
  have g2: "py_set (available s) ?c 0 = Inr ((available s)[nat ?c := 0])"
    by (rule py_set_nat[OF c])
  show ?case
    by (subst bitmap_loop.simps) (simp add: uniform_int_zero[OF 0(1)] g1 g2 0(3))
next
  case (Suc m)
  let ?c = "int (np_random s 0) mod dealer_n s"
  let ?g = "\<lambda>i. np_random s (Suc i)"
  have c: "0 \<le> ?c" "?c < int (length (available s))" using Suc(2,3) by simp_all
  have g1: "py_get (available s) ?c = Inr (available s ! nat ?c)" by (rule py_get_nat[OF c])
  have g2: "py_set (available s) ?c 0 = Inr ((available s)[nat ?c := 0])"
    by (rule py_set_nat[OF c])
  show ?case
  proof (cases "available s ! nat ?c \<noteq> 0")
    case True
    then show ?thesis
      by (subst bitmap_loop.simps) (simp add: uniform_int_zero[OF Suc(2)] g1 g2)
  next
    case False
    have "\<exists>y. bitmap_loop (s\<lparr>np_random := ?g\<rparr>) = Some y"
      by (rule Suc.IH) (use Suc(2,3,4) in simp_all)
    then obtain y where y: "bitmap_loop (s\<lparr>np_random := ?g\<rparr>) = Some y" ..
    have "bitmap_loop s = Some y"
      by (subst bitmap_loop.simps) (use False in \<open>simp add: uniform_int_zero[OF Suc(2)] g1 y\<close>)
    then show ?thesis ..
  qed
qed

lemma bitmap_loop_fair:
  assumes run: "bitmap_loop s0 = Some y0"
  shows "fair (np_random s0) \<longrightarrow> (\<forall>c s'. y0 = Inr (c, s') \<longrightarrow> fair (np_random s'))"
proof (rule bitmap_loop.raw_induct[where P = "\<lambda>s y. fair (np_random s) \<longrightarrow>
         (\<forall>c s'. y = Inr (c, s') \<longrightarrow> fair (np_random s'))", OF _ run])
  fix f :: "bitmap \<Rightarrow> (error + (int \<times> bitmap)) option" and s y
  assume ih: "\<And>x y. f x = Some y \<Longrightarrow> fair (np_random x) \<longrightarrow>
         (\<forall>c s'. y = Inr (c, s') \<longrightarrow> fair (np_random s'))"
  assume step: "(case uniform_int (np_random s) 0 (dealer_n s - 1) of
        Inl e \<Rightarrow> Some (Inl e)
      | Inr (c, g) \<Rightarrow>
          (case py_get (available s) c of
             Inl e \<Rightarrow> Some (Inl e)
           | Inr a \<Rightarrow>
               if a \<noteq> 0
               then (case py_set (available s) c 0 of
                       Inl e \<Rightarrow> Some (Inl e)
                     | Inr av \<Rightarrow>
                         Some (Inr (c, s\<lparr>np_random := g, num_drawn := num_drawn s + 1,
                                         available := av\<rparr>)))
               else f (s\<lparr>np_random := g\<rparr>))) = Some y"
  show "fair (np_random s) \<longrightarrow> (\<forall>c s'. y = Inr (c, s') \<longrightarrow> fair (np_random s'))"
  proof (intro impI allI)
    fix c s' assume fr: "fair (np_random s)" and y: "y = Inr (c, s')"
    show "fair (np_random s')"
    proof (cases "uniform_int (np_random s) 0 (dealer_n s - 1)")
      case (Inl e)
      then show ?thesis using step y by simp
    next
      case (Inr p)
      obtain c1 g where p: "p = (c1, g)" by (cases p)
      have g: "g = (\<lambda>i. np_random s (Suc i))" using uniform_int_shift Inr p by blast
      have fg: "fair g" unfolding g by (rule fair_shift[OF fr])
      show ?thesis
      proof (cases "py_get (available s) c1")
        case (Inl e)
        then show ?thesis using step y Inr p by simp
      next
        case a: (Inr a)
        show ?thesis
        proof (cases "a \<noteq> 0")
          case True
          show ?thesis
          proof (cases "py_set (available s) c1 0")
            case (Inl e)
            then show ?thesis using step y Inr p a True by simp
          next
            case av: (Inr av)
            have "s' = s\<lparr>np_random := g, num_drawn := num_drawn s + 1, available := av\<rparr>"
              using step y Inr p a True av by simp
            then show ?thesis using fg by simp
          qed
        next
          case False
          then have "f (s\<lparr>np_random := g\<rparr>) = Some y" using step Inr p a by simp
          from ih[OF this] fg y show ?thesis by simp
        qed
      qed
    qed
  qed
qed

lemma fair_hit_int:
  assumes "fair g" "0 \<le> i" "i < d"
  shows "\<exists>m. int (g m) mod d = i"
proof -
  have "nat i < nat d" using assms(2,3) by simp
  then obtain m where m: "g m mod nat d = nat i" using fair_hit[OF assms(1)] by blast
  have "int (g m) mod d = int (g m mod nat d)" using assms(2,3) by (simp add: zmod_int)
  then have "int (g m) mod d = i" using m assms(2) by simp
  then show ?thesis ..
qed

lemma bitmap_draw_fair:
  assumes inv: "bitmap_inv k outs s" and lt: "num_drawn s < k" and fr: "fair (np_random s)"
  shows "\<exists>c s'. bitmap_draw s = Some (Inr (c, s')) \<and> bitmap_inv k (outs @ [c]) s' \<and>
           fair (np_random s')"
proof -
  have I1: "dealer_n s = k" and I2: "num_drawn s = int (length outs)"
    and I3: "length (available s) = nat k" and I4: "distinct outs"
    and I5: "set outs = {i. 0 \<le> i \<and> i < k \<and> available s ! nat i = 0}"
    using inv unfolding bitmap_inv_def by blast+
  have k1: "1 \<le> k" using lt I2 by simp
  have sub: "set outs \<subseteq> {0..<k}" unfolding I5 by auto
  have "card (set outs) < card {0..<k}" using distinct_card[OF I4] lt I2 by simp
  then have "set outs \<noteq> {0..<k}" by auto
  then obtain i where i: "i \<in> {0..<k}" "i \<notin> set outs" using sub by blast
  then have av: "available s ! nat i \<noteq> 0" unfolding I5 by simp
  obtain m where m: "int (np_random s m) mod k = i"
    using fair_hit_int[OF fr, of i k] i(1) by auto
  have ce: "\<not> check_exhausted s" using lt I1 by (simp add: check_exhausted_def)
  have "\<exists>y. bitmap_loop s = Some y"
    by (rule bitmap_loop_returns[of s m]) (use k1 I1 I3 m av in simp_all)
  then obtain y where y: "bitmap_loop s = Some y" ..
  then have d: "bitmap_draw s = Some y" using ce by (simp add: bitmap_draw_def)
  obtain c s' where r: "y = Inr (c, s')" "bitmap_inv k (outs @ [c]) s'"
    using bitmap_draw_step[OF inv lt d] by blast
  have "fair (np_random s')" using bitmap_loop_fair[OF y] fr r(1) by blast
  then show ?thesis using d r by blast
qed

lemma adaptive_accept_rng:
  "adaptive_accept s i = Inr (c, s') \<Longrightarrow> np_random s' = np_random s"
  unfolding adaptive_accept_def by (auto split: sum.splits)

lemma transition_to_final_rng:
  "transition_to_final s = Inr s' \<Longrightarrow> np_random s' = np_random s"
  unfolding transition_to_final_def by (auto split: sum.splits)

lemma draw_final_fair:
  assumes "draw_final s = Inr (c, s')" "fair (np_random s)"
  shows "fair (np_random s')"
proof -
  have "np_random s' = (\<lambda>i. np_random s (Suc i))"
    using assms(1) unfolding draw_final_def
    by (auto split: sum.splits if_splits simp: uniform_int_def)
  then show ?thesis using fair_shift[OF assms(2)] by simp
qed

lemma adaptive_loop_fair:
  assumes run: "adaptive_loop thr s0 = Some y0"
  shows "fair (np_random s0) \<longrightarrow> (\<forall>c s'. y0 = Inr (c, s') \<longrightarrow> fair (np_random s'))"
proof (rule adaptive_loop.raw_induct[where P = "\<lambda>thr s y. fair (np_random s) \<longrightarrow>
         (\<forall>c s'. y = Inr (c, s') \<longrightarrow> fair (np_random s'))", OF _ run])
  fix f :: "int \<Rightarrow> adaptive \<Rightarrow> (error + (int \<times> adaptive)) option" and threshold s y
  assume ih: "\<And>thr x y. f thr x = Some y \<Longrightarrow> fair (np_random x) \<longrightarrow>
         (\<forall>c s'. y = Inr (c, s') \<longrightarrow> fair (np_random s'))"
  assume step: "(case uniform_int (np_random s) 0 (ad_d s - 1) of
        Inl e \<Rightarrow> Some (Inl e)
      | Inr (i, g) \<Rightarrow>
          (case is_drawable s threshold i of
             Inl e \<Rightarrow> Some (Inl e)
           | Inr b \<Rightarrow>
               if b then Some (adaptive_accept (s\<lparr>np_random := g\<rparr>) i)
               else f threshold (s\<lparr>np_random := g\<rparr>))) = Some y"
  show "fair (np_random s) \<longrightarrow> (\<forall>c s'. y = Inr (c, s') \<longrightarrow> fair (np_random s'))"
  proof (intro impI allI)
    fix c s' assume fr: "fair (np_random s)" and y: "y = Inr (c, s')"
    show "fair (np_random s')"
    proof (cases "uniform_int (np_random s) 0 (ad_d s - 1)")
      case (Inl e)
      then show ?thesis using step y by simp
    next
      case (Inr p)
      obtain i g where p: "p = (i, g)" by (cases p)
      have g: "g = (\<lambda>i. np_random s (Suc i))" using uniform_int_shift Inr p by blast
      have fg: "fair g" unfolding g by (rule fair_shift[OF fr])
      show ?thesis
      proof (cases "is_drawable s threshold i")
        case (Inl e)
        then show ?thesis using step y Inr p by simp
      next
        case b: (Inr b)
        show ?thesis
        proof (cases b)
          case True
          then have "adaptive_accept (s\<lparr>np_random := g\<rparr>) i = Inr (c, s')"
            using step y Inr p b by simp
          from adaptive_accept_rng[OF this] show ?thesis using fg by simp
        next
          case False
          then have "f threshold (s\<lparr>np_random := g\<rparr>) = Some y" using step Inr p b by simp
          from ih[OF this] fg y show ?thesis by simp
        qed
      qed
    qed
  qed
qed

lemma adaptive_draw_fair_keep:
  assumes run: "adaptive_draw s = Some (Inr (c, s'))" and fr: "fair (np_random s)"
  shows "fair (np_random s')"
proof -
  have ce: "\<not> check_exhausted s" using run by (auto simp: adaptive_draw_def)
  show ?thesis
  proof (cases "phase s")
    case FinalPhase
    then have "draw_final s = Inr (c, s')" using run ce by (simp add: adaptive_draw_def)
    then show ?thesis using fr by (rule draw_final_fair)
  next
    case AdaptivePhase
    let ?s1 = "s\<lparr>ad_t := ad_t s + 1\<rparr>"
    have da: "draw_adaptive s = Some (Inr (c, s'))"
      using run ce AdaptivePhase by (simp add: adaptive_draw_def)
    show ?thesis
    proof (cases "ad_t ?s1 > dealer_n ?s1 - 2 * ad_d ?s1")
      case True
      show ?thesis
      proof (cases "transition_to_final ?s1")
        case (Inl e)
        then show ?thesis using da True by (simp add: draw_adaptive_def Let_def)
      next
        case (Inr s2)
        then have "draw_final s2 = Inr (c, s')"
          using da True by (simp add: draw_adaptive_def Let_def)
        moreover have "fair (np_random s2)" using transition_to_final_rng[OF Inr] fr by simp
        ultimately show ?thesis by (rule draw_final_fair)
      qed
    next
      case False
      show ?thesis
      proof (cases "current_threshold ?s1")
        case (Inl e)
        then show ?thesis using da False by (simp add: draw_adaptive_def Let_def)
      next
        case (Inr thr)
        then have "adaptive_loop thr ?s1 = Some (Inr (c, s'))"
          using da False by (simp add: draw_adaptive_def Let_def)
        from adaptive_loop_fair[OF this] fr show ?thesis by simp
      qed
    qed
  qed
qed

lemma filterE_subset: "filterE c xs = Inr ys \<Longrightarrow> set ys \<subseteq> set xs"
proof (induction xs arbitrary: ys)
  case Nil
  then show ?case by simp
next
  case (Cons x xs)
  then show ?case by (auto split: sum.splits if_splits)
qed

lemma adaptive_draw_fair:
  assumes inv: "adaptive_inv k outs s" and lt: "num_drawn s < k" and fr: "fair (np_random s)"
  shows "\<exists>c s'. adaptive_draw s = Some (Inr (c, s')) \<and> adaptive_inv k (outs @ [c]) s' \<and>
           fair (np_random s')"
proof -
  note B = adaptive_inv_baseD[OF inv]
  note P = partition_okD[OF B(3)]
  have ce: "\<not> check_exhausted s" using lt B(1) by (simp add: check_exhausted_def)
  have "\<exists>y. adaptive_draw s = Some y"
  proof (cases "phase s")
    case FinalPhase
    then show ?thesis using ce by (simp add: adaptive_draw_def)
  next
    case AdaptivePhase
    obtain ds where gd: "get_drawable_indices (s\<lparr>ad_t := ad_t s + 1\<rparr>) = Inr ds"
      and ne: "ds \<noteq> []"
      and ret: "(\<exists>m. int (np_random s m) mod ad_d s \<in> set ds) \<longrightarrow>
           (\<exists>c s'. adaptive_draw s = Some (Inr (c, s')))"
      using adaptive_rejection[OF inv AdaptivePhase lt] by blast
    obtain i where i: "i \<in> set ds" using ne by (cases ds) auto
    have "set ds \<subseteq> set (py_range (ad_d s))"
    proof (cases "current_threshold (s\<lparr>ad_t := ad_t s + 1\<rparr>)")
      case (Inl e)
      then show ?thesis using gd by (simp add: get_drawable_indices_def)
    next
      case (Inr thr)
      then have "filterE (is_drawable (s\<lparr>ad_t := ad_t s + 1\<rparr>) thr) (py_range (ad_d s)) = Inr ds"
        using gd by (simp add: get_drawable_indices_def)
      then show ?thesis by (rule filterE_subset)
    qed
    then have ir: "0 \<le> i" "i < ad_d s" using i by auto
    obtain m where "int (np_random s m) mod ad_d s = i"
      using fair_hit_int[OF fr ir] by blast
    then have "\<exists>m. int (np_random s m) mod ad_d s \<in> set ds" using i by blast
    then show ?thesis using ret by blast
  qed
  then obtain y where y: "adaptive_draw s = Some y" ..
  obtain c s' where r: "y = Inr (c, s')" "adaptive_inv k (outs @ [c]) s'"
    using adaptive_draw_step[OF inv lt y] by blast
  have "fair (np_random s')" using adaptive_draw_fair_keep[OF y[unfolded r(1)] fr] .
  then show ?thesis using y r by blast
qed

section \<open>The permutation property\<close>

lemma reset_rng: "reset cls k g mb = Inr d \<Longrightarrow> rng_of d = g"
proof (cases cls)
  case BitmapDealer
  assume "reset cls k g mb = Inr d"
  then show ?thesis using BitmapDealer by (auto simp: bitmap_reset_def)
next
  case FisherYatesDealer
  assume "reset cls k g mb = Inr d"
  then show ?thesis using FisherYatesDealer by (auto simp: fisher_yates_reset_def)
next
  case AdaptiveThresholdDealer
  assume "reset cls k g mb = Inr d"
  then show ?thesis using AdaptiveThresholdDealer by (auto simp: adaptive_reset_fields)
next
  case PerfectDealer
  assume r: "reset cls k g mb = Inr d"
  show ?thesis
  proof (cases "perfect_reset k g")
    case (Inl e)
    then show ?thesis using r PerfectDealer by simp
  next
    case (Inr s)
    have "np_random s = g"
      using Inr unfolding perfect_reset_def Let_def
      by (cases "mapE (make_cell k (cell_width k))
                   (py_range \<lceil>real_of_int k / real_of_int (cell_width k)\<rceil>)") auto
    then show ?thesis using r PerfectDealer Inr by auto
  qed
qed

text \<open>On a fair source every draw within the \<open>k\<close> cards returns.\<close>

lemma draw_fair_step:
  assumes inv: "dealer_inv k outs d" and lt: "drawn_of d < k" and fr: "fair (rng_of d)"
  shows "\<exists>x d'. draw d = Some (Inr (x, d')) \<and> fair (rng_of d')"
proof (cases d)
  case (Bitmap s)
  obtain c s' where "bitmap_draw s = Some (Inr (c, s'))" "fair (np_random s')"
    using bitmap_draw_fair[of k outs s] inv lt fr Bitmap by auto
  then show ?thesis using Bitmap by auto
next
  case (FisherYates s)
  obtain c s' where r: "fisher_yates_draw s = Inr (c, s')"
    using fisher_yates_draw_step[of k outs s] inv lt FisherYates by auto
  have "np_random s' = (\<lambda>i. np_random s (Suc i))"
    using r unfolding fisher_yates_draw_def
    by (auto split: sum.splits if_splits simp: uniform_int_def)
  then have "fair (np_random s')" using fair_shift[of "np_random s"] fr FisherYates by simp
  then show ?thesis using r FisherYates by auto
next
  case (Adaptive s)
  obtain c s' where "adaptive_draw s = Some (Inr (c, s'))" "fair (np_random s')"
    using adaptive_draw_fair[of k outs s] inv lt fr Adaptive by auto
  then show ?thesis using Adaptive by auto
next
  case (Perfect s)
  obtain c s' where r: "perfect_draw s = Inr (c, s')"
    using perfect_draw_step[of k outs s] inv lt Perfect by auto
  have g: "\<And>p idx cl r g'. perfect_sample s = Inr (p, idx, cl, r, g') \<Longrightarrow>
      g' = (\<lambda>i. np_random s (Suc (Suc (Suc i))))"
    unfolding perfect_sample_def
    by (auto split: sum.splits if_splits simp: uniform_int_def)
  have d: "\<And>t idx p t'. decrement_cell_population t idx p = Inr t' \<Longrightarrow> np_random t' = np_random t"
    unfolding decrement_cell_population_def Let_def
    by (auto split: sum.splits if_splits)
  have "np_random s' = (\<lambda>i. np_random s (Suc (Suc (Suc i))))"
    using r unfolding perfect_draw_def Let_def
    by (auto split: sum.splits if_splits prod.splits dest!: g d)
  moreover have "fair (\<lambda>i. np_random s (Suc (Suc (Suc i))))"
    using fair_shift[OF fair_shift[OF fair_shift[of "np_random s"]]] fr Perfect by simp
  ultimately have "fair (np_random s')" by simp
  then show ?thesis using r Perfect by auto
qed

lemma draws_fair:
  assumes "dealer_inv k outs d" "int (length outs) + int j \<le> k" "fair (rng_of d)"
  shows "\<exists>xs d'. draws j d = Some (Inr (xs, d'))"
  using assms
proof (induction j arbitrary: outs d)
  case 0
  then show ?case by simp
next
  case (Suc j)
  have lt: "drawn_of d < k" using Suc(2,3) dealer_inv_counts(2)[OF Suc(2)] by simp
  obtain x d1 where d: "draw d = Some (Inr (x, d1))" and f1: "fair (rng_of d1)"
    using draw_fair_step[OF Suc(2) lt Suc(4)] by blast
  have inv1: "dealer_inv k (outs @ [x]) d1" using draw_step[OF Suc(2) lt d] by simp
  have b: "int (length (outs @ [x])) + int j \<le> k" using Suc(3) by simp
  obtain xs d' where "draws j d1 = Some (Inr (xs, d'))" using Suc.IH[OF inv1 b f1] by blast
  then have "draws (Suc j) d = Some (Inr (x # xs, d'))" using d by simp
  then show ?case by blast
qed

text \<open>
  C1. For every dealer class, every \<open>n \<ge> 0\<close> (in particular \<open>n \<ge> 2\<close>), every parameter
  \<open>m_bits\<close> and every random source: \<open>reset(n, rng)\<close> succeeds, and the \<open>n\<close> calls of
  \<open>draw\<close> that follow never raise; the \<open>n\<close> ids they return are pairwise distinct and are
  exactly the ids \<open>0, \<dots>, n - 1\<close>. The \<open>n\<close> calls return for every source with the
  FisherYates and the Perfect dealer, and for every fair source with the Bitmap and the
  AdaptiveThreshold dealer, whose \<open>draw\<close> is a rejection loop.
\<close>

theorem draws_permutation:
  assumes "0 \<le> k"
  shows "\<exists>d0. reset cls k g mb = Inr d0 \<and>
     (case draws (nat k) d0 of
        None \<Rightarrow> (cls = BitmapDealer \<or> cls = AdaptiveThresholdDealer) \<and> \<not> fair g
      | Some (Inl e) \<Rightarrow> False
      | Some (Inr (xs, d)) \<Rightarrow> length xs = nat k \<and> distinct xs \<and> set xs = {0..<k})"
proof -
  obtain d0 where r: "reset cls k g mb = Inr d0" and inv: "dealer_inv k [] d0"
    and lf: "loop_free d0 \<longleftrightarrow> cls = FisherYatesDealer \<or> cls = PerfectDealer"
    using reset_inv[OF assms, of cls g mb] by blast
  have g: "rng_of d0 = g" by (rule reset_rng[OF r])
  have b: "int (length ([]::int list)) + int (nat k) \<le> k" using assms by simp
  from draws_inv[OF inv b]
  have "case draws (nat k) d0 of
        None \<Rightarrow> (cls = BitmapDealer \<or> cls = AdaptiveThresholdDealer) \<and> \<not> fair g
      | Some (Inl e) \<Rightarrow> False
      | Some (Inr (xs, d)) \<Rightarrow> length xs = nat k \<and> distinct xs \<and> set xs = {0..<k}"
  proof
    assume n: "draws (nat k) d0 = None \<and> \<not> loop_free d0"
    then have c: "cls = BitmapDealer \<or> cls = AdaptiveThresholdDealer"
      using lf by (cases cls) simp_all
    have "\<not> fair g"
    proof
      assume "fair g"
      then have "fair (rng_of d0)" using g by simp
      from draws_fair[OF inv b this] n show False by auto
    qed
    then show ?thesis using n c by simp
  next
    assume "\<exists>xs d'. draws (nat k) d0 = Some (Inr (xs, d')) \<and> length xs = nat k \<and>
                   dealer_inv k ([] @ xs) d' \<and> loop_free d' = loop_free d0"
    then obtain xs d' where d: "draws (nat k) d0 = Some (Inr (xs, d'))" "length xs = nat k"
      "dealer_inv k xs d'" by auto
    have "int (length xs) = k" using d(2) assms by simp
    from dealer_inv_full[OF d(3) this] have m: "mset xs = mset (py_range k)" .
    have "distinct xs" using mset_eq_imp_distinct_iff[OF m] by simp
    moreover have "set xs = {0..<k}" using mset_eq_setD[OF m] by simp
    ultimately show ?thesis using d(1,2) by simp
  qed
  then show ?thesis using r by blast
qed

theorem draws_permutation_witness:
  "(0::int) \<le> 3 \<and> fair (linear_rng 1 0) \<and>
   (\<exists>d0. reset BitmapDealer 3 (linear_rng 1 0) None = Inr d0 \<and>
     (\<exists>xs d. draws (nat 3) d0 = Some (Inr (xs, d)) \<and>
        length xs = nat 3 \<and> distinct xs \<and> set xs = {0..<3}))"
proof -
  have h: "(0::int) \<le> 3" by simp
  obtain d0 where r: "reset BitmapDealer 3 (linear_rng 1 0) None = Inr d0"
    and c: "case draws (nat 3) d0 of
        None \<Rightarrow> (BitmapDealer = BitmapDealer \<or> BitmapDealer = AdaptiveThresholdDealer) \<and>
                 \<not> fair (linear_rng 1 0)
      | Some (Inl e) \<Rightarrow> False
      | Some (Inr (xs, d)) \<Rightarrow> length xs = nat 3 \<and> distinct xs \<and> set xs = {0..<3}"
    using draws_permutation[OF h, of BitmapDealer "linear_rng 1 0" None] by blast
  have "\<exists>xs d. draws (nat 3) d0 = Some (Inr (xs, d)) \<and>
        length xs = nat 3 \<and> distinct xs \<and> set xs = {0..<3}"
  proof (cases "draws (nat 3) d0")
    case None
    then show ?thesis using c fair_linear by simp
  next
    case (Some y)
    show ?thesis
    proof (cases y)
      case (Inl e)
      then show ?thesis using c Some by simp
    next
      case (Inr p)
      obtain xs d where "p = (xs, d)" by (cases p)
      then show ?thesis using c Some Inr by simp
    qed
  qed
  then show ?thesis using h fair_linear r by blast
qed

end
